theory Spec2Isabelle
  imports Main "HOL-Library.Sublist"
begin

section \<open>Python strings\<close>

text \<open>
  A Python \<open>str\<close> is modelled as a \<open>string\<close>: every \<open>char\<close> stands for the code point
  of the same number, so the model covers texts whose code points are below 256.
  \<open>isspace\<close> lists the code points below 256 that Python counts as whitespace in
  \<open>str.strip()\<close>, \<open>str.split()\<close> and the regular expression class \<open>\s\<close>.
\<close>

abbreviation NL :: char where "NL \<equiv> CHR 0x0A"

definition isspace :: "char \<Rightarrow> bool" where
  "isspace c = (c \<in> {CHR 0x09, CHR 0x0A, CHR 0x0B, CHR 0x0C, CHR 0x0D,
                      CHR 0x1C, CHR 0x1D, CHR 0x1E, CHR 0x1F, CHR 0x20, CHR 0x85, CHR 0xA0})"

text \<open>\<open>s.strip()\<close>\<close>

definition strip :: "string \<Rightarrow> string" where
  "strip s = rev (dropWhile isspace (rev (dropWhile isspace s)))"

text \<open>\<open>s.split(c)\<close> for a one-character separator: never the empty list.\<close>

fun split_on :: "char \<Rightarrow> string \<Rightarrow> string list" where
  "split_on sep [] = [[]]"
| "split_on sep (x # xs) =
     (if x = sep then [] # split_on sep xs
      else (case split_on sep xs of
              [] \<Rightarrow> [[x]]
            | w # ws \<Rightarrow> (x # w) # ws))"

text \<open>\<open>s.split()\<close>: the maximal runs of non-whitespace characters.\<close>

fun split_ws :: "string \<Rightarrow> string list" where
  "split_ws [] = []"
| "split_ws (c # cs) =
     (if isspace c then split_ws cs
      else (case cs of
              [] \<Rightarrow> [[c]]
            | d # _ \<Rightarrow>
                if isspace d then [c] # split_ws cs
                else (case split_ws cs of
                        [] \<Rightarrow> [[c]]
                      | w # ws \<Rightarrow> (c # w) # ws)))"

text \<open>\<open>sep.join(xs)\<close>\<close>

fun join :: "string \<Rightarrow> string list \<Rightarrow> string" where
  "join sep [] = []"
| "join sep [x] = x"
| "join sep (x # y # ys) = x @ sep @ join sep (y # ys)"

text \<open>
  \<open>s.lower()\<close> on code points below 256: the ASCII capitals and the Latin-1 capitals
  \<open>0xC0..0xDE\<close> (the multiplication sign \<open>0xD7\<close> apart) move up by 32.
\<close>

definition lower_char :: "char \<Rightarrow> char" where
  "lower_char c =
     (let n = (of_char c :: nat) in
      if (65 \<le> n \<and> n \<le> 90) \<or> (192 \<le> n \<and> n \<le> 222 \<and> n \<noteq> 215)
      then char_of (n + 32) else c)"

definition lower :: "string \<Rightarrow> string" where
  "lower s = map lower_char s"

text \<open>\<open>s.replace(old, "")\<close>: the occurrences of \<open>old\<close> are deleted, left to right,
  without overlaps; an empty \<open>old\<close> changes nothing.\<close>

function remove_all :: "string \<Rightarrow> string \<Rightarrow> string" where
  "remove_all old s =
     (if old \<noteq> [] \<and> prefix old s then remove_all old (drop (length old) s)
      else (case s of [] \<Rightarrow> [] | c # cs \<Rightarrow> c # remove_all old cs))"
  by pat_completeness auto
termination
  by (relation "measure (\<lambda>(old, s). length s)") (auto simp: prefix_def)

declare remove_all.simps [simp del]

text \<open>\<open>str(n)\<close> for a natural number.\<close>

definition digit_char :: "nat \<Rightarrow> char" where
  "digit_char d = char_of (48 + d)"

function show_nat :: "nat \<Rightarrow> string" where
  "show_nat n = (if n < 10 then [digit_char n] else show_nat (n div 10) @ [digit_char (n mod 10)])"
  by pat_completeness auto
termination
  by (relation "measure id") auto

declare show_nat.simps [simp del]

section \<open>Reasoner.deduplicate_recommendations\<close>

text \<open>
  The loop over the lines: \<open>seen\<close> holds the stripped forms already met and
  \<open>unique_lines\<close> the lines kept so far, each as it was read.
\<close>

fun dedup_loop :: "string set \<Rightarrow> string list \<Rightarrow> string list \<Rightarrow> string list" where
  "dedup_loop seen unique_lines [] = unique_lines"
| "dedup_loop seen unique_lines (line # rest) =
     (let clean_line = strip line in
      if clean_line \<noteq> [] \<and> clean_line \<notin> seen
      then dedup_loop (insert clean_line seen) (unique_lines @ [line]) rest
      else dedup_loop seen unique_lines rest)"

definition deduplicate_recommendations :: "string \<Rightarrow> string" where
  "deduplicate_recommendations text =
     (if text = [] then text
      else join [NL] (dedup_loop {} [] (split_on NL text)))"

section \<open>ProjectManager.generate_requirements_fix\<close>

definition version_updates :: "(string \<times> string) list" where
  "version_updates =
     [(''requests'', ''>=2.31.0''),
      (''flask'', ''>=2.3.3''),
      (''django'', ''>=4.2.4''),
      (''numpy'', ''>=1.24.0''),
      (''setuptools'', ''>=68.0.0'')]"

text \<open>The inner loop with its \<open>break\<close>: the first package whose pin starts the line.\<close>

fun update_line :: "(string \<times> string) list \<Rightarrow> string \<Rightarrow> string option" where
  "update_line [] line = None"
| "update_line ((pkg, new_version) # rest) line =
     (if prefix (pkg @ ''=='') line then Some (pkg @ new_version)
      else update_line rest line)"

fun fix_lines :: "string list \<Rightarrow> string list \<Rightarrow> string list" where
  "fix_lines updated_lines [] = updated_lines"
| "fix_lines updated_lines (l # ls) =
     (let line = strip l in
      if line = [] \<or> prefix ''#'' line then fix_lines (updated_lines @ [line]) ls
      else (case update_line version_updates line of
              Some u \<Rightarrow> fix_lines (updated_lines @ [u]) ls
            | None \<Rightarrow> fix_lines (updated_lines @ [line]) ls))"

definition generate_requirements_fix :: "string \<Rightarrow> string" where
  "generate_requirements_fix current_content =
     (if current_content = [] then ''# No requirements.txt content available for fixing''
      else join [NL] (fix_lines [] (split_on NL current_content)))"

text \<open>The transformation of one line, as the specification words it, on the stripped line.\<close>

definition rewrite_line :: "string \<Rightarrow> string" where
  "rewrite_line l =
     (let t = strip l in
      if t = [] \<or> prefix ''#'' t then t
      else if prefix ''requests=='' t then ''requests>=2.31.0''
      else if prefix ''flask=='' t then ''flask>=2.3.3''
      else if prefix ''django=='' t then ''django>=4.2.4''
      else if prefix ''numpy=='' t then ''numpy>=1.24.0''
      else if prefix ''setuptools=='' t then ''setuptools>=68.0.0''
      else t)"


section \<open>Regular expressions of the path patterns\<close>

text \<open>
  The five patterns of \<open>Reasoner.extract_path\<close> are sequences of two kinds of item: one
  character of a class, and the greedy star of a class. \<open>match_here\<close> matches such a
  sequence at the start of a text the way a backtracking matcher does (a star takes as
  many characters as it can and gives them back one by one when the rest fails), and
  returns the matched text. \<open>re_search\<close> is \<open>re.search(pattern, s).group(0)\<close>: the match
  at the leftmost start.
\<close>

datatype item = One "char \<Rightarrow> bool" | Many "char \<Rightarrow> bool"

fun match_here :: "item list \<Rightarrow> string \<Rightarrow> string option" where
  "match_here [] s = Some []"
| "match_here (One p # r) [] = None"
| "match_here (One p # r) (c # cs) =
     (if p c then map_option (Cons c) (match_here r cs) else None)"
| "match_here (Many p # r) [] = match_here r []"
| "match_here (Many p # r) (c # cs) =
     (if p c
      then (case match_here (Many p # r) cs of
              Some m \<Rightarrow> Some (c # m)
            | None \<Rightarrow> match_here r (c # cs))
      else match_here r (c # cs))"

fun re_search :: "item list \<Rightarrow> string \<Rightarrow> string option" where
  "re_search r [] = match_here r []"
| "re_search r (c # cs) =
     (case match_here r (c # cs) of
        Some m \<Rightarrow> Some m
      | None \<Rightarrow> re_search r cs)"

text \<open>The class of characters an item takes its characters from.\<close>

fun item_class :: "item \<Rightarrow> char \<Rightarrow> bool" where
  "item_class (One p) = p"
| "item_class (Many p) = p"

definition lit :: "string \<Rightarrow> item list" where
  "lit s = map (\<lambda>c. One (\<lambda>x. x = c)) s"

abbreviation BSL :: char where "BSL \<equiv> CHR 0x5C"

text \<open>The class \<open>[A-Za-z]\<close>.\<close>

definition ascii_letter :: "char \<Rightarrow> bool" where
  "ascii_letter c =
     (let n = (of_char c :: nat) in (65 \<le> n \<and> n \<le> 90) \<or> (97 \<le> n \<and> n \<le> 122))"

text \<open>
  In the raw strings of the source the classes of the last four patterns are written
  with a doubled backslash before the letter s: an escaped backslash followed by the
  letter s. So the positive class holds the two characters backslash and \<open>s\<close>, and the
  negated class holds every other character (whitespace and newline included).
\<close>

definition bsl_or_s :: "char \<Rightarrow> bool" where
  "bsl_or_s c = (c = BSL \<or> c = CHR ''s'')"

text \<open>
  The first pattern: a slash, characters other than whitespace, a slash, characters
  other than whitespace.
\<close>

definition unix_pattern :: "item list" where
  "unix_pattern =
     [One (\<lambda>c. c = CHR ''/''), Many (\<lambda>c. \<not> isspace c),
      One (\<lambda>c. c = CHR ''/''), Many (\<lambda>c. \<not> isspace c)]"

definition path_patterns :: "item list list" where
  "path_patterns =
     [unix_pattern,
      [One ascii_letter, One (\<lambda>c. c = CHR '':''), One (\<lambda>c. c = BSL),
       Many (\<lambda>c. \<not> bsl_or_s c)],
      lit ''project'' @ [One bsl_or_s, Many (\<lambda>c. \<not> bsl_or_s c)],
      lit ''directory'' @ [One bsl_or_s, Many (\<lambda>c. \<not> bsl_or_s c)],
      lit ''path'' @ [One bsl_or_s, Many (\<lambda>c. \<not> bsl_or_s c)]]"

text \<open>The loop over the patterns: the match of the first pattern that matches.\<close>

fun first_match :: "item list list \<Rightarrow> string \<Rightarrow> string option" where
  "first_match [] s = None"
| "first_match (pattern # rest) s =
     (case re_search pattern s of
        Some m \<Rightarrow> Some m
      | None \<Rightarrow> first_match rest s)"

text \<open>The three \<open>replace\<close> calls that clean the matched path.\<close>

definition clean_path :: "string \<Rightarrow> string" where
  "clean_path path = remove_all ''path '' (remove_all ''directory '' (remove_all ''project '' path))"

section \<open>The environment and the state of the Reasoner\<close>

text \<open>
  What the Reasoner reads from outside is a parameter of the model: the file system
  (\<open>os.path.exists\<close>, \<open>os.path.isdir\<close>, \<open>os.getcwd\<close>, \<open>os.path.join\<close>,
  \<open>os.path.abspath\<close>), the interpreter's limit on the digits \<open>int\<close> converts (0 for
  none), the completion service (\<open>client.chat.completions.create\<close>, by model name and
  prompt; it returns the message content or raises), and the scans of the
  ProjectManager together with the formatting of their results into the context text
  (by project path and user request). A prompt is the template that builds it and the
  texts put into the template.
\<close>

datatype exn = Exn string

datatype prompt =
    AssessmentPrompt string
  | CompletenessPrompt string
  | OptimizationPrompt string
  | FixCodePrompt string
  | CoderPrompt string

record env =
  path_exists :: "string \<Rightarrow> bool"
  path_isdir :: "string \<Rightarrow> bool"
  getcwd :: string
  path_join :: "string \<Rightarrow> string \<Rightarrow> string"
  abspath :: "string \<Rightarrow> string"
  int_max_str_digits :: nat
  complete :: "string \<Rightarrow> prompt \<Rightarrow> exn + string"
  project_context :: "string \<Rightarrow> string \<Rightarrow> exn + string"

record reasoner =
  current_context :: string
  current_project_path :: "string option"
  project_manager :: "string option"
  ambiguous_paths :: "string list"
  waiting_for_path_selection :: bool
  original_request :: string

text \<open>The state \<open>__init__\<close> builds.\<close>

definition init_reasoner :: reasoner where
  "init_reasoner =
     \<lparr>current_context = [], current_project_path = None, project_manager = None,
      ambiguous_paths = [], waiting_for_path_selection = False, original_request = []\<rparr>"

section \<open>Reasoner.extract_path\<close>

definition stoplist :: "string list" where
  "stoplist =
     [''analyze'', ''scan'', ''review'', ''check'', ''project'', ''directory'',
      ''path'', ''for'', ''the'', ''a'', ''an'', ''security'', ''issues'',
      ''1'', ''2'', ''3'', ''4'', ''5'']"

text \<open>
  \<open>potential_paths\<close> is a Python set; it is modelled as a list without repetitions, in
  the order of insertion. Python leaves the order of \<open>list(potential_paths)\<close> open.
\<close>

definition set_add :: "string \<Rightarrow> string list \<Rightarrow> string list" where
  "set_add x xs = (if x \<in> set xs then xs else xs @ [x])"

fun scan_words :: "env \<Rightarrow> string list \<Rightarrow> string list \<Rightarrow> string list" where
  "scan_words e potential_paths [] = potential_paths"
| "scan_words e potential_paths (word # rest) =
     (if lower word \<in> set stoplist then scan_words e potential_paths rest
      else
        (let paths1 = (if path_exists e word \<and> path_isdir e word
                       then set_add (abspath e word) potential_paths
                       else potential_paths);
             potential_path = path_join e (getcwd e) word;
             paths2 = (if path_exists e potential_path \<and> path_isdir e potential_path
                       then set_add (abspath e potential_path) paths1
                       else paths1)
         in scan_words e paths2 rest))"

text \<open>
  The result is the returned value (\<open>None\<close>, a path or the word \<open>AMBIGUOUS\<close>) and the
  state, whose \<open>ambiguous_paths\<close> the last branch sets.
\<close>

definition extract_path :: "env \<Rightarrow> reasoner \<Rightarrow> string \<Rightarrow> string option \<times> reasoner" where
  "extract_path e st user_input =
     (case first_match path_patterns user_input of
        Some path \<Rightarrow> (Some (clean_path path), st)
      | None \<Rightarrow>
          (let potential_paths = scan_words e [] (split_ws user_input) in
           if length potential_paths = 0 then (None, st)
           else if length potential_paths = 1 then (Some (hd potential_paths), st)
           else (Some ''AMBIGUOUS'', st\<lparr>ambiguous_paths := potential_paths\<rparr>)))"

section \<open>Reasoner.handle_path_selection\<close>

text \<open>
  \<open>int(s)\<close> on a text: whitespace around the number is dropped, one sign may come
  first, and the digits may be grouped by single underscores. \<open>None\<close> stands for the
  \<open>ValueError\<close>, which the interpreter also raises for more digits than its limit
  (when the limit is set and the digits are more than 640).
\<close>

definition is_digit :: "char \<Rightarrow> bool" where
  "is_digit c = (c \<in> set ''0123456789'')"

fun digits_ok :: "string \<Rightarrow> bool" where
  "digits_ok [] = False"
| "digits_ok [c] = is_digit c"
| "digits_ok (c # d # r) =
     (is_digit c \<and> (if d = CHR ''_'' then digits_ok r else digits_ok (d # r)))"

definition digit_val :: "char \<Rightarrow> int" where
  "digit_val c = int (of_char c) - 48"

definition digits_value :: "string \<Rightarrow> int" where
  "digits_value ds = foldl (\<lambda>acc c. 10 * acc + digit_val c) 0 ds"

definition py_int :: "env \<Rightarrow> string \<Rightarrow> int option" where
  "py_int e s =
     (let t = strip s;
          neg = prefix ''-'' t;
          body = (if prefix ''-'' t \<or> prefix ''+'' t then tl t else t);
          ds = filter (\<lambda>c. c \<noteq> CHR ''_'') body
      in if \<not> digits_ok body then None
         else if 640 < length ds \<and> 0 < int_max_str_digits e \<and> int_max_str_digits e < length ds
         then None
         else Some (if neg then - digits_value ds else digits_value ds))"

definition handle_path_selection :: "env \<Rightarrow> reasoner \<Rightarrow> string \<Rightarrow> string \<times> reasoner" where
  "handle_path_selection e st user_input =
     (case py_int e (strip user_input) of
        Some n \<Rightarrow>
          (let selection = n - 1 in
           if 0 \<le> selection \<and> selection < int (length (ambiguous_paths st))
           then (ambiguous_paths st ! nat selection,
                 st\<lparr>ambiguous_paths := [], waiting_for_path_selection := False\<rparr>)
           else (''QUESTION: Invalid selection. Please choose a number from the list.'', st))
      | None \<Rightarrow>
          if path_exists e user_input \<and> path_isdir e user_input
          then (user_input, st\<lparr>ambiguous_paths := [], waiting_for_path_selection := False\<rparr>)
          else (''QUESTION: Please enter a valid number from the list or provide a full path.'',
                st))"

section \<open>The extraction of the report fields in Reasoner.analyze\<close>

text \<open>
  The four searches of \<open>analyze\<close> have the shape \<open>LABEL:\s*(.*?)(?=NEXT:|\Z)\<close> with
  \<open>re.DOTALL\<close>. Such a search matches at the first occurrence of the label (the end of
  the text always satisfies the lookahead); the star of \<open>\s\<close> takes all the whitespace
  after the label, and the lazy group runs to the first place where the next label
  starts, or to the end of the text. \<open>find_label\<close> returns the text after the first
  occurrence of a label and \<open>before_label\<close> the lazy group. The last search,
  \<open>QUESTIONS:\s*(.*)$\<close>, takes everything to the end.
\<close>

fun find_label :: "string \<Rightarrow> string \<Rightarrow> string option" where
  "find_label l [] = (if l = [] then Some [] else None)"
| "find_label l (c # cs) =
     (if prefix l (c # cs) then Some (drop (length l) (c # cs)) else find_label l cs)"

fun before_label :: "string \<Rightarrow> string \<Rightarrow> string" where
  "before_label l [] = []"
| "before_label l (c # cs) = (if prefix l (c # cs) then [] else c # before_label l cs)"

record report =
  assessment :: string
  risk_level :: string
  recommendations :: string
  questions :: string

definition extract_report :: "string \<Rightarrow> report" where
  "extract_report decision =
     \<lparr>assessment =
        (case find_label ''ASSESSMENT:'' decision of
           Some rest \<Rightarrow> strip (before_label ''RISK_LEVEL:'' (dropWhile isspace rest))
         | None \<Rightarrow> ''No assessment provided''),
      risk_level =
        (case find_label ''RISK_LEVEL:'' decision of
           Some rest \<Rightarrow> strip (before_label ''RECOMMENDATIONS:'' (dropWhile isspace rest))
         | None \<Rightarrow> ''Unknown''),
      recommendations =
        (case find_label ''RECOMMENDATIONS:'' decision of
           Some rest \<Rightarrow> strip (before_label ''QUESTIONS:'' (dropWhile isspace rest))
         | None \<Rightarrow> ''No recommendations''),
      questions =
        (case find_label ''QUESTIONS:'' decision of
           Some rest \<Rightarrow> strip (dropWhile isspace rest)
         | None \<Rightarrow> ''null'')\<rparr>"

section \<open>Reasoner.analyze\<close>

definition generate_fix_code :: "env \<Rightarrow> string \<Rightarrow> string option" where
  "generate_fix_code e recs =
     (if recs = [] \<or> recs = ''No recommendations'' then None
      else (case complete e ''deepseek-coder'' (FixCodePrompt recs) of
              Inr content \<Rightarrow> Some (strip content)
            | Inl _ \<Rightarrow> None))"

definition project_keywords :: "string list" where
  "project_keywords =
     [''project'', ''directory'', ''file'', ''scan'', ''audit'', ''fix'',
      ''vulnerability'', ''review'', ''analyze'', ''check'', ''security'']"

text \<open>The truth value Python gives a path that is \<open>None\<close> or a text.\<close>

definition truthy :: "string option \<Rightarrow> bool" where
  "truthy p = (case p of None \<Rightarrow> False | Some s \<Rightarrow> s \<noteq> [])"

abbreviation APO :: char where "APO \<equiv> CHR 0x27"

definition final_response_text :: "report \<Rightarrow> string option \<Rightarrow> string" where
  "final_response_text r fix_code =
     [NL] @ ''SECURITY ASSESSMENT REPORT'' @ [NL]
     @ ''=========================='' @ [NL]
     @ ''Risk Level: '' @ risk_level r @ [NL]
     @ [NL]
     @ ''Assessment:'' @ [NL]
     @ assessment r @ [NL]
     @ [NL]
     @ ''Recommendations:'' @ [NL]
     @ recommendations r @ [NL]
     @ (if truthy fix_code
        then [NL] @ [NL] @ ''AUTOMATED FIXES:'' @ [NL]
             @ ''================'' @ [NL]
             @ ''Here'' @ [APO] @ ''s code to implement the recommendations:'' @ [NL]
             @ [NL]
             @ (case fix_code of Some c \<Rightarrow> c | None \<Rightarrow> []) @ [NL]
        else [])"

text \<open>The branch of a request with a path: lines 263 to 363 of the source.\<close>

definition project_analysis ::
  "env \<Rightarrow> reasoner \<Rightarrow> string \<Rightarrow> string \<Rightarrow> (exn + string) \<times> reasoner" where
  "project_analysis e st user_input project_path =
     (if \<not> path_exists e project_path \<or> \<not> path_isdir e project_path
      then (Inr (''QUESTION: The path '' @ [APO] @ project_path @ [APO] @ '' doesn'' @ [APO]
                 @ ''t exist or is not a directory. Please provide a valid path.''), st)
      else
        (let st1 = st\<lparr>current_project_path := Some project_path,
                       project_manager := Some project_path\<rparr> in
         case project_context e project_path user_input of
           Inl x \<Rightarrow> (Inl x, st1)
         | Inr ctx \<Rightarrow>
             (let st2 = st1\<lparr>current_context := ctx\<rparr> in
              case complete e ''deepseek-reasoner'' (AssessmentPrompt ctx) of
                Inl x \<Rightarrow> (Inl x, st2)
              | Inr content \<Rightarrow>
                  (let decision = strip content;
                       r = extract_report decision;
                       fix_code = (if recommendations r \<noteq> ''No recommendations''
                                   then generate_fix_code e (recommendations r) else None);
                       final_response = final_response_text r fix_code
                   in (Inr (if questions r \<noteq> ''null''
                            then ''QUESTION: '' @ questions r @ [NL, NL] @ final_response
                            else final_response), st2)))))"

text \<open>The branch of a request that is not about a project: lines 371 to 424.\<close>

definition coding_request :: "env \<Rightarrow> reasoner \<Rightarrow> string \<Rightarrow> (exn + string) \<times> reasoner" where
  "coding_request e st user_input =
     (case complete e ''deepseek-reasoner'' (CompletenessPrompt user_input) of
        Inl x \<Rightarrow> (Inl x, st)
      | Inr content \<Rightarrow>
          (let decision = strip content in
           if decision = ''CODE_GENERATION_APPROVED''
           then (case complete e ''deepseek-reasoner'' (OptimizationPrompt user_input) of
                   Inl x \<Rightarrow> (Inl x, st)
                 | Inr content2 \<Rightarrow>
                     (let optimized_prompt = strip content2 in
                      case complete e ''deepseek-coder'' (CoderPrompt optimized_prompt) of
                        Inl x \<Rightarrow> (Inl x, st)
                      | Inr generated_code \<Rightarrow> (Inr generated_code, st)))
           else (Inr (''QUESTION: '' @ decision), st)))"

text \<open>The body of \<open>analyze\<close> after the test of the selection flag: lines 245 to 424.\<close>

definition analyze_request :: "env \<Rightarrow> reasoner \<Rightarrow> string \<Rightarrow> (exn + string) \<times> reasoner" where
  "analyze_request e st0 user_input =
     (let st = st0\<lparr>original_request := user_input\<rparr>;
          is_project_request =
            list_ex (\<lambda>keyword. sublist keyword (lower user_input)) project_keywords;
          (project_path, st1) = extract_path e st user_input
      in if project_path = Some ''AMBIGUOUS''
         then
           (let st2 = st1\<lparr>waiting_for_path_selection := True\<rparr>;
                paths_list = join [NL]
                  (map (\<lambda>(i, path). show_nat (i + 1) @ ''. '' @ path)
                       (enumerate 0 (ambiguous_paths st2)))
            in (Inr (''QUESTION: I found multiple directories with that name. ''
                     @ ''Which one did you mean?'' @ [NL] @ paths_list @ [NL]
                     @ ''Please enter the number:''), st2))
         else if is_project_request \<or> truthy project_path
         then
           (case project_path of
              Some p \<Rightarrow>
                if p \<noteq> [] then project_analysis e st1 user_input p
                else (Inr ''QUESTION: Please provide the path to the project you want me to analyze.'',
                      st1)
            | None \<Rightarrow>
                (Inr ''QUESTION: Please provide the path to the project you want me to analyze.'',
                 st1))
         else coding_request e st1 user_input)"

text \<open>
  \<open>analyze\<close> itself: while a selection is awaited the input is a selection; a selected
  path is stored and \<open>analyze\<close> runs again on the stored request.
\<close>

function analyze :: "env \<Rightarrow> reasoner \<Rightarrow> string \<Rightarrow> (exn + string) \<times> reasoner" where
  "analyze e st user_input =
     (if waiting_for_path_selection st
      then
        (let r = handle_path_selection e st user_input in
         if prefix ''QUESTION:'' (fst r) then (Inr (fst r), snd r)
         else analyze e ((snd r)\<lparr>current_project_path := Some (fst r)\<rparr>)
                (original_request (snd r)))
      else analyze_request e st user_input)"
  by pat_completeness auto
termination
proof (relation "measure (\<lambda>(e, st, user_input). if waiting_for_path_selection st then 1 else 0)")
  show "wf (measure (\<lambda>(e, st, user_input). if waiting_for_path_selection st then 1 else (0::nat)))"
    by simp
next
  fix e :: env and st :: reasoner and user_input :: string and r
  assume w: "waiting_for_path_selection st"
    and r: "r = handle_path_selection e st user_input"
    and q: "\<not> prefix ''QUESTION:'' (fst r)"
  have "\<not> waiting_for_path_selection (snd r)"
    using q unfolding r handle_path_selection_def
    by (auto simp: Let_def split: option.splits if_splits)
  with w show "((e, (snd r)\<lparr>current_project_path := Some (fst r)\<rparr>, original_request (snd r)),
                e, st, user_input)
      \<in> measure (\<lambda>(e, st, user_input). if waiting_for_path_selection st then 1 else 0)"
    by simp
qed

declare analyze.simps [simp del]

section \<open>Environments for the examples\<close>

text \<open>
  A session on a machine whose only directory of interest is \<open>/tmp/demo\<close>, with the
  working directory \<open>/home\<close>, and a completion service that answers every prompt with
  the same well-formed assessment.
\<close>

definition posix_join :: "string \<Rightarrow> string \<Rightarrow> string" where
  "posix_join a b = (if prefix ''/'' b then b else a @ ''/'' @ b)"

definition demo_env :: env where
  "demo_env =
     \<lparr>path_exists = (\<lambda>p. p = ''/tmp/demo''),
      path_isdir = (\<lambda>p. p = ''/tmp/demo''),
      getcwd = ''/home'',
      path_join = posix_join,
      abspath = posix_join ''/home'',
      int_max_str_digits = 4300,
      complete = (\<lambda>m p. Inr (''ASSESSMENT: ok'' @ [NL] @ ''RISK_LEVEL: Low'' @ [NL]
                              @ ''RECOMMENDATIONS: patch X'' @ [NL] @ ''QUESTIONS: null'')),
      project_context = (\<lambda>p u. Inr ''scan results'')\<rparr>"

text \<open>The same machine with no directory at all.\<close>

definition no_dirs_env :: env where
  "no_dirs_env = demo_env\<lparr>path_exists := (\<lambda>p. False), path_isdir := (\<lambda>p. False)\<rparr>"

text \<open>A machine where the working directory holds the directories \<open>security\<close> and \<open>1\<close>.\<close>

definition stopword_dirs_env :: env where
  "stopword_dirs_env =
     demo_env\<lparr>path_exists := (\<lambda>p. p \<in> {''security'', ''/home/security'', ''1'', ''/home/1''}),
               path_isdir := (\<lambda>p. p \<in> {''security'', ''/home/security'', ''1'', ''/home/1''})\<rparr>"

text \<open>
  A machine whose working directory \<open>/home\<close> holds the directories \<open>app\<close> and \<open>lib\<close>.
\<close>

definition two_dirs_env :: env where
  "two_dirs_env =
     demo_env\<lparr>path_exists := (\<lambda>p. p \<in> {''app'', ''/home/app'', ''lib'', ''/home/lib''}),
               path_isdir := (\<lambda>p. p \<in> {''app'', ''/home/app'', ''lib'', ''/home/lib''})\<rparr>"

text \<open>A Reasoner that waits for a selection among three candidates.\<close>

definition awaiting_abc :: reasoner where
  "awaiting_abc =
     init_reasoner\<lparr>ambiguous_paths := [''/x/a'', ''/x/b'', ''/x/c''],
                    waiting_for_path_selection := True,
                    original_request := ''look at a b c''\<rparr>"

section \<open>The invariant of the conversation state\<close>

definition conversation_invariant :: "reasoner \<Rightarrow> bool" where
  "conversation_invariant st = ((ambiguous_paths st \<noteq> []) = waiting_for_path_selection st)"

section \<open>ProjectManager: external tools with fallback\<close>

text \<open>
  The values \<open>json.loads\<close> returns and the dictionaries the strategies build. A number
  is kept as an integer (only whether it is zero is ever looked at); a dictionary is
  the list of its entries, with distinct keys.
\<close>

datatype json =
    JNull
  | JBool bool
  | JNum int
  | JStr string
  | JArr "json list"
  | JObj "(string \<times> json) list"

text \<open>The truth value Python gives such a value.\<close>

fun json_truthy :: "json \<Rightarrow> bool" where
  "json_truthy JNull = False"
| "json_truthy (JBool b) = b"
| "json_truthy (JNum n) = (n \<noteq> 0)"
| "json_truthy (JStr s) = (s \<noteq> [])"
| "json_truthy (JArr xs) = (xs \<noteq> [])"
| "json_truthy (JObj kvs) = (kvs \<noteq> [])"

text \<open>
  The outside of the ProjectManager: \<open>subprocess.run\<close>, which changes the world \<open>'w\<close>
  and returns the completed process or raises, \<open>json.loads\<close>, and the probes of
  \<open>run_scan\<close> that walk and read the project directory.
\<close>

record proc =
  returncode :: int
  stdout :: string
  stderr :: string

record 'w tools =
  subprocess_run :: "string list \<Rightarrow> nat \<Rightarrow> 'w \<Rightarrow> (exn + proc) \<times> 'w"
  json_loads :: "string \<Rightarrow> exn + json"
  detect_languages :: "'w \<Rightarrow> json \<times> 'w"
  get_file_structure :: "'w \<Rightarrow> json \<times> 'w"
  analyze_file_contents :: "'w \<Rightarrow> json \<times> 'w"
  identify_potential_issues :: "'w \<Rightarrow> json \<times> 'w"
  detect_frameworks :: "json \<Rightarrow> json"

text \<open>
  The body the six strategies share: run the command; on exit code 0 parse the output;
  otherwise, and on every exception, build the dictionary with the \<open>error\<close> entry
  (\<open>with_rc\<close>: the first strategy of each chain also records the exit code).
\<close>

definition run_tool ::
  "'w tools \<Rightarrow> string list \<Rightarrow> nat \<Rightarrow> bool \<Rightarrow> 'w \<Rightarrow> json \<times> 'w" where
  "run_tool t cmd timeout with_rc w =
     (case subprocess_run t cmd timeout w of
        (Inl (Exn msg), w') \<Rightarrow> (JObj [(''error'', JStr msg)], w')
      | (Inr result, w') \<Rightarrow>
          if returncode result = 0
          then (case json_loads t (stdout result) of
                  Inl (Exn msg) \<Rightarrow> (JObj [(''error'', JStr msg)], w')
                | Inr parsed \<Rightarrow> (parsed, w'))
          else (JObj ((''error'', JStr (stderr result))
                      # (if with_rc then [(''returncode'', JNum (returncode result))] else [])),
                w'))"

definition run_semgrep_basic :: "'w tools \<Rightarrow> string \<Rightarrow> string \<Rightarrow> 'w \<Rightarrow> json \<times> 'w" where
  "run_semgrep_basic t semgrep_path base_path =
     run_tool t [semgrep_path, ''--pattern'', ''def $F(...): ...'', ''--json'', base_path] 120 True"

definition run_semgrep_security :: "'w tools \<Rightarrow> string \<Rightarrow> string \<Rightarrow> 'w \<Rightarrow> json \<times> 'w" where
  "run_semgrep_security t semgrep_path base_path =
     run_tool t [semgrep_path, ''--config'', ''p/security-audit'', ''--json'', base_path] 180 False"

definition run_semgrep_auto :: "'w tools \<Rightarrow> string \<Rightarrow> string \<Rightarrow> 'w \<Rightarrow> json \<times> 'w" where
  "run_semgrep_auto t semgrep_path base_path =
     run_tool t [semgrep_path, ''--config'', ''auto'', ''--json'', base_path] 180 False"

definition run_osv_audit_standard :: "'w tools \<Rightarrow> string \<Rightarrow> 'w \<Rightarrow> json \<times> 'w" where
  "run_osv_audit_standard t base_path =
     run_tool t [''osv-scanner'', ''--json'', base_path] 120 True"

definition run_osv_audit_recursive :: "'w tools \<Rightarrow> string \<Rightarrow> 'w \<Rightarrow> json \<times> 'w" where
  "run_osv_audit_recursive t base_path =
     run_tool t [''osv-scanner'', ''--recursive'', ''--json'', base_path] 120 False"

definition run_osv_audit_lockfile :: "'w tools \<Rightarrow> string \<Rightarrow> 'w \<Rightarrow> json \<times> 'w" where
  "run_osv_audit_lockfile t base_path =
     run_tool t [''osv-scanner'', ''--lockfile'', base_path, ''--json''] 120 False"

text \<open>
  The loop of both fallback functions: \<open>if result and not result.get("error")\<close>. A
  result that is not a dictionary and is not falsy has no \<open>get\<close>: the attribute error
  leaves the loop.
\<close>

fun run_with_fallback ::
  "('w \<Rightarrow> json \<times> 'w) list \<Rightarrow> json \<Rightarrow> 'w \<Rightarrow> (exn + json) \<times> 'w" where
  "run_with_fallback [] failure w = (Inr failure, w)"
| "run_with_fallback (strategy # rest) failure w =
     (case strategy w of
        (result, w') \<Rightarrow>
          if \<not> json_truthy result then run_with_fallback rest failure w'
          else (case result of
                  JObj kvs \<Rightarrow>
                    (case map_of kvs ''error'' of
                       None \<Rightarrow> (Inr result, w')
                     | Some v \<Rightarrow>
                         if json_truthy v then run_with_fallback rest failure w'
                         else (Inr result, w'))
                | _ \<Rightarrow> (Inl (Exn ''AttributeError''), w')))"

definition semgrep_failure :: json where
  "semgrep_failure =
     JObj [(''error'', JStr ''All Semgrep scanning strategies failed''),
           (''suggested_fix'', JStr ''Check Semgrep installation: pip install semgrep'')]"

definition osv_failure :: json where
  "osv_failure =
     JObj [(''error'', JStr ''All OSV-Scanner strategies failed''),
           (''suggested_fix'', JStr ''Install OSV-Scanner: winget install Google.OSVScanner'')]"

definition semgrep_strategies ::
  "'w tools \<Rightarrow> string \<Rightarrow> string \<Rightarrow> ('w \<Rightarrow> json \<times> 'w) list" where
  "semgrep_strategies t semgrep_path base_path =
     [run_semgrep_basic t semgrep_path base_path,
      run_semgrep_security t semgrep_path base_path,
      run_semgrep_auto t semgrep_path base_path]"

definition osv_strategies :: "'w tools \<Rightarrow> string \<Rightarrow> ('w \<Rightarrow> json \<times> 'w) list" where
  "osv_strategies t base_path =
     [run_osv_audit_standard t base_path,
      run_osv_audit_recursive t base_path,
      run_osv_audit_lockfile t base_path]"

definition run_semgrep_with_fallback ::
  "'w tools \<Rightarrow> string \<Rightarrow> string \<Rightarrow> 'w \<Rightarrow> (exn + json) \<times> 'w" where
  "run_semgrep_with_fallback t semgrep_path base_path =
     run_with_fallback (semgrep_strategies t semgrep_path base_path) semgrep_failure"

definition run_osv_audit_with_fallback :: "'w tools \<Rightarrow> string \<Rightarrow> 'w \<Rightarrow> (exn + json) \<times> 'w" where
  "run_osv_audit_with_fallback t base_path =
     run_with_fallback (osv_strategies t base_path) osv_failure"

text \<open>\<open>run_scan\<close>: the slots are filled in the order of the dictionary display.\<close>

record scan_bundle =
  languages :: json
  file_structure :: json
  file_contents :: json
  semgrep_scan :: json
  potential_issues :: json
  detected_frameworks :: json

definition run_scan ::
  "'w tools \<Rightarrow> string \<Rightarrow> string \<Rightarrow> 'w \<Rightarrow> (exn + scan_bundle) \<times> 'w" where
  "run_scan t semgrep_path base_path w =
     (case detect_languages t w of (l, w1) \<Rightarrow>
      case get_file_structure t w1 of (s, w2) \<Rightarrow>
      case analyze_file_contents t w2 of (f, w3) \<Rightarrow>
      case run_semgrep_with_fallback t semgrep_path base_path w3 of
        (Inl x, w4) \<Rightarrow> (Inl x, w4)
      | (Inr g, w4) \<Rightarrow>
          (case identify_potential_issues t w4 of (p, w5) \<Rightarrow>
             (Inr \<lparr>languages = l, file_structure = s, file_contents = f, semgrep_scan = g,
                   potential_issues = p, detected_frameworks = detect_frameworks t f\<rparr>, w5)))"

text \<open>
  For the statements about a chain: the results of running every strategy of a list
  in turn, and the two kinds of result the chain tells apart. A result has failed when
  it is an empty dictionary or a dictionary whose \<open>error\<close> entry is truthy; it has
  succeeded when it is a non-empty dictionary without an \<open>error\<close> entry.
\<close>

fun run_all :: "('w \<Rightarrow> json \<times> 'w) list \<Rightarrow> 'w \<Rightarrow> json list \<times> 'w" where
  "run_all [] w = ([], w)"
| "run_all (strategy # rest) w =
     (case strategy w of
        (r, w') \<Rightarrow> (case run_all rest w' of (rs, w'') \<Rightarrow> (r # rs, w'')))"

definition failed :: "json \<Rightarrow> bool" where
  "failed r =
     (case r of
        JObj kvs \<Rightarrow>
          kvs = [] \<or> (case map_of kvs ''error'' of Some v \<Rightarrow> json_truthy v | None \<Rightarrow> False)
      | _ \<Rightarrow> False)"

definition succeeded :: "json \<Rightarrow> bool" where
  "succeeded r =
     (case r of
        JObj kvs \<Rightarrow> kvs \<noteq> [] \<and> map_of kvs ''error'' = None
      | _ \<Rightarrow> False)"

text \<open>
  A machine without the scanners: every command raises, and the world counts the
  commands that were tried. A machine on which the second invocation of a command
  succeeds with an empty list of results.
\<close>

definition no_tools :: "nat tools" where
  "no_tools =
     \<lparr>subprocess_run = (\<lambda>cmd timeout w. (Inl (Exn ''FileNotFoundError''), Suc w)),
      json_loads = (\<lambda>s. Inl (Exn ''JSONDecodeError'')),
      detect_languages = (\<lambda>w. (JObj [(''languages'', JObj []), (''total_files'', JNum 0)], w)),
      get_file_structure = (\<lambda>w. (JObj [(''files'', JArr []), (''directories'', JArr [])], w)),
      analyze_file_contents = (\<lambda>w. (JObj [], w)),
      identify_potential_issues = (\<lambda>w. (JArr [], w)),
      detect_frameworks = (\<lambda>f. JArr [])\<rparr>"

definition second_works :: "nat tools" where
  "second_works =
     no_tools\<lparr>subprocess_run :=
                 (\<lambda>cmd timeout w.
                    if w = 1 then (Inr \<lparr>returncode = 0, stdout = ''ok'', stderr = []\<rparr>, Suc w)
                    else (Inr \<lparr>returncode = 2, stdout = [], stderr = ''usage''\<rparr>, Suc w)),
              json_loads := (\<lambda>s. Inr (JObj [(''results'', JArr [])]))\<rparr>"

section \<open>Facts about the string functions\<close>

lemma strip_no_ws:
  assumes "l \<noteq> []" "\<not> isspace (hd l)" "\<not> isspace (last l)"
  shows "strip l = l"
proof -
  from assms have a: "dropWhile isspace l = l" by (cases l) auto
  from assms have "rev l \<noteq> []" "\<not> isspace (hd (rev l))" by (simp_all add: hd_rev)
  then have "dropWhile isspace (rev l) = rev l" by (cases "rev l") auto
  with a show ?thesis by (simp add: strip_def)
qed

lemma prefix_head_differs: "prefix (a # xs) t \<Longrightarrow> a \<noteq> b \<Longrightarrow> \<not> prefix (b # ys) t"
  by (cases t) auto

section \<open>The deduplication loop\<close>

lemma dedup_loop_acc: "dedup_loop seen acc ls = acc @ dedup_loop seen [] ls"
proof (induction ls arbitrary: seen acc)
  case Nil
  show ?case by simp
next
  case (Cons l ls)
  show ?case
    using Cons.IH [of "insert (strip l) seen" "acc @ [l]"] Cons.IH [of "insert (strip l) seen" "[l]"]
      Cons.IH [of seen acc]
    by (simp add: Let_def)
qed

lemma dedup_loop_blank: "dedup_loop (insert [] seen) acc ls = dedup_loop seen acc ls"
proof (induction ls arbitrary: seen acc)
  case Nil
  show ?case by simp
next
  case (Cons l ls)
  show ?case
    using Cons.IH [of "insert (strip l) seen" "acc @ [l]"] Cons.IH [of seen acc]
    by (simp add: Let_def insert_commute)
qed

lemma dedup_loop_append:
  "dedup_loop seen [] (pre @ post) =
     dedup_loop seen [] pre @ dedup_loop (seen \<union> strip ` set pre) [] post"
proof (induction pre arbitrary: seen)
  case Nil
  show ?case by simp
next
  case (Cons l pre)
  show ?case
  proof (cases "strip l \<noteq> [] \<and> strip l \<notin> seen")
    case True
    then show ?thesis
      using Cons.IH [of "insert (strip l) seen"]
        dedup_loop_acc [of "insert (strip l) seen" "[l]" "pre @ post"]
        dedup_loop_acc [of "insert (strip l) seen" "[l]" pre]
      by (simp add: Let_def)
  next
    case False
    then have "dedup_loop (seen \<union> strip ` set (l # pre)) [] post =
        dedup_loop (seen \<union> strip ` set pre) [] post"
      using dedup_loop_blank [of "seen \<union> strip ` set pre" "[]" post]
      by (auto simp: insert_absorb)
    with False show ?thesis
      using Cons.IH [of seen] by (auto simp: Let_def)
  qed
qed

lemma dedup_loop_distinct:
  "distinct (map strip (dedup_loop seen [] ls)) \<and>
   set (map strip (dedup_loop seen [] ls)) = strip ` set ls - seen - {[]}"
proof (induction ls arbitrary: seen)
  case Nil
  show ?case by simp
next
  case (Cons l ls)
  show ?case
    using Cons.IH [of "insert (strip l) seen"] Cons.IH [of seen]
      dedup_loop_acc [of "insert (strip l) seen" "[l]" ls]
    by (auto simp: Let_def)
qed

lemma dedup_loop_subseq: "subseq (dedup_loop seen [] ls) ls"
proof (induction ls arbitrary: seen)
  case Nil
  show ?case by simp
next
  case (Cons l ls)
  show ?case
    using Cons.IH [of "insert (strip l) seen"] Cons.IH [of seen]
      dedup_loop_acc [of "insert (strip l) seen" "[l]" ls]
    by (auto simp: Let_def)
qed

lemma dedup_loop_at:
  "dedup_loop {} [] (pre @ line # post) =
     dedup_loop {} [] pre
       @ (if strip line \<noteq> [] \<and> strip line \<notin> strip ` set pre then [line] else [])
       @ dedup_loop (strip ` set (pre @ [line])) [] post"
proof -
  have "dedup_loop {} [] ((pre @ [line]) @ post) =
      dedup_loop {} [] (pre @ [line]) @ dedup_loop ({} \<union> strip ` set (pre @ [line])) [] post"
    by (rule dedup_loop_append)
  moreover have "dedup_loop {} [] (pre @ [line]) =
      dedup_loop {} [] pre @ dedup_loop ({} \<union> strip ` set pre) [] [line]"
    by (rule dedup_loop_append)
  ultimately show ?thesis by (simp add: Let_def)
qed

text \<open>
  C8 (amended). Lines are compared by their stripped forms: for a non-empty text, a
  line is kept, as it was written, exactly when its stripped form is non-empty and differs
  from the stripped form of every earlier line; the kept lines stay in their order, are
  joined by newlines, have pairwise different non-empty stripped forms, and every
  non-blank stripped form of the input survives. The empty text is returned as it is.
\<close>

theorem deduplicate_first_stripped_occurrence:
  assumes "text \<noteq> []" and "split_on NL text = pre @ line # post"
  shows "\<exists>kept. deduplicate_recommendations text = join [NL] kept
           \<and> kept = dedup_loop {} [] pre
               @ (if strip line \<noteq> [] \<and> strip line \<notin> strip ` set pre then [line] else [])
               @ dedup_loop (strip ` set (pre @ [line])) [] post
           \<and> subseq kept (split_on NL text)
           \<and> distinct (map strip kept)
           \<and> set (map strip kept) = strip ` set (split_on NL text) - {[]}"
proof -
  let ?kept = "dedup_loop {} [] (split_on NL text)"
  have "deduplicate_recommendations text = join [NL] ?kept"
    using assms(1) by (simp add: deduplicate_recommendations_def)
  moreover have "?kept = dedup_loop {} [] pre
      @ (if strip line \<noteq> [] \<and> strip line \<notin> strip ` set pre then [line] else [])
      @ dedup_loop (strip ` set (pre @ [line])) [] post"
    unfolding assms(2) by (rule dedup_loop_at)
  moreover have "subseq ?kept (split_on NL text)"
    by (rule dedup_loop_subseq)
  moreover have "distinct (map strip ?kept)"
    "set (map strip ?kept) = strip ` set (split_on NL text) - {[]}"
    using dedup_loop_distinct [of "{}" "split_on NL text"] by simp_all
  ultimately show ?thesis by blast
qed

theorem deduplicate_first_stripped_occurrence_witness:
  "deduplicate_recommendations ''a\<newline>b\<newline>a\<newline>\<newline>b'' = ''a\<newline>b''
   \<and> (\<exists>kept. deduplicate_recommendations ''a\<newline>b\<newline>a\<newline>\<newline>b'' = join [NL] kept
          \<and> subseq kept [''a'', ''b'', ''a'', '''', ''b'']
          \<and> distinct (map strip kept))"
proof -
  have t: "''a\<newline>b\<newline>a\<newline>\<newline>b'' \<noteq> []" by simp
  have s: "split_on NL ''a\<newline>b\<newline>a\<newline>\<newline>b'' = [''a'', ''b''] @ ''a'' # ['''', ''b'']"
    by simp
  have "deduplicate_recommendations ''a\<newline>b\<newline>a\<newline>\<newline>b'' = ''a\<newline>b''"
    by (simp add: deduplicate_recommendations_def strip_def isspace_def)
  moreover have "\<exists>kept. deduplicate_recommendations ''a\<newline>b\<newline>a\<newline>\<newline>b'' = join [NL] kept
          \<and> subseq kept [''a'', ''b'', ''a'', '''', ''b'']
          \<and> distinct (map strip kept)"
    using deduplicate_first_stripped_occurrence [OF t s] s by auto
  ultimately show ?thesis by blast
qed

text \<open>
  C8 as stated fails: two lines that differ only in leading whitespace count as
  duplicates, and the second is dropped.
\<close>

theorem deduplicate_whitespace_counterexample:
  "deduplicate_recommendations ''a\<newline> a'' = ''a''
   \<and> deduplicate_recommendations ''a\<newline> a'' \<noteq> ''a\<newline> a''"
  by (simp add: deduplicate_recommendations_def strip_def isspace_def)

section \<open>The requirements rewriting\<close>

lemma update_line_table:
  "update_line version_updates t =
     (if prefix ''requests=='' t then Some ''requests>=2.31.0''
      else if prefix ''flask=='' t then Some ''flask>=2.3.3''
      else if prefix ''django=='' t then Some ''django>=4.2.4''
      else if prefix ''numpy=='' t then Some ''numpy>=1.24.0''
      else if prefix ''setuptools=='' t then Some ''setuptools>=68.0.0''
      else None)"
  unfolding version_updates_def update_line.simps append.simps ..

lemma rewrite_line_update:
  "rewrite_line l =
     (if strip l = [] \<or> prefix ''#'' (strip l) then strip l
      else (case update_line version_updates (strip l) of Some u \<Rightarrow> u | None \<Rightarrow> strip l))"
  unfolding rewrite_line_def update_line_table Let_def
  by (simp only: option.case if_distrib [of "case_option _ _"] cong: if_cong)

lemma fix_lines_step: "fix_lines acc (l # ls) = fix_lines (acc @ [rewrite_line l]) ls"
proof (cases "strip l = [] \<or> prefix ''#'' (strip l)")
  case True
  then show ?thesis
    unfolding fix_lines.simps Let_def rewrite_line_update by (simp only: if_True)
next
  case False
  then show ?thesis
    unfolding fix_lines.simps Let_def rewrite_line_update
    by (cases "update_line version_updates (strip l)") (simp_all only: if_False option.case)
qed

lemma fix_lines_map: "fix_lines acc ls = acc @ map rewrite_line ls"
proof (induction ls arbitrary: acc)
  case Nil
  show ?case by simp
next
  case (Cons l ls)
  show ?case
    unfolding fix_lines_step Cons.IH by simp
qed

lemma pin_table:
  "(pkg, v) \<in> set version_updates \<longleftrightarrow>
     (pkg = ''requests'' \<and> v = ''>=2.31.0'') \<or> (pkg = ''flask'' \<and> v = ''>=2.3.3'') \<or>
     (pkg = ''django'' \<and> v = ''>=4.2.4'') \<or> (pkg = ''numpy'' \<and> v = ''>=1.24.0'') \<or>
     (pkg = ''setuptools'' \<and> v = ''>=68.0.0'')"
  unfolding version_updates_def by (simp only: list.set insert_iff empty_iff prod.inject simp_thms)

lemma pin_mem:
  "(''requests'', ''>=2.31.0'') \<in> set version_updates"
  "(''flask'', ''>=2.3.3'') \<in> set version_updates"
  "(''django'', ''>=4.2.4'') \<in> set version_updates"
  "(''numpy'', ''>=1.24.0'') \<in> set version_updates"
  "(''setuptools'', ''>=68.0.0'') \<in> set version_updates"
  unfolding pin_table by (simp_all only: simp_thms)

lemma pin_requests:
  "prefix ''requests=='' t \<Longrightarrow> update_line version_updates t = Some ''requests>=2.31.0''"
  unfolding update_line_table by (simp only: if_True)

lemma pin_flask:
  assumes p: "prefix ''flask=='' t"
  shows "update_line version_updates t = Some ''flask>=2.3.3''"
proof -
  have "\<not> prefix ''requests=='' t" by (rule prefix_head_differs [OF p]) simp
  with p show ?thesis unfolding update_line_table by (simp only: if_True if_False)
qed

lemma pin_django:
  assumes p: "prefix ''django=='' t"
  shows "update_line version_updates t = Some ''django>=4.2.4''"
proof -
  have "\<not> prefix ''requests=='' t" "\<not> prefix ''flask=='' t"
    by (rule prefix_head_differs [OF p], simp)+
  with p show ?thesis unfolding update_line_table by (simp only: if_True if_False)
qed

lemma pin_numpy:
  assumes p: "prefix ''numpy=='' t"
  shows "update_line version_updates t = Some ''numpy>=1.24.0''"
proof -
  have "\<not> prefix ''requests=='' t" "\<not> prefix ''flask=='' t" "\<not> prefix ''django=='' t"
    by (rule prefix_head_differs [OF p], simp)+
  with p show ?thesis unfolding update_line_table by (simp only: if_True if_False)
qed

lemma pin_setuptools:
  assumes p: "prefix ''setuptools=='' t"
  shows "update_line version_updates t = Some ''setuptools>=68.0.0''"
proof -
  have "\<not> prefix ''requests=='' t" "\<not> prefix ''flask=='' t" "\<not> prefix ''django=='' t"
    "\<not> prefix ''numpy=='' t"
    by (rule prefix_head_differs [OF p], simp)+
  with p show ?thesis unfolding update_line_table by (simp only: if_True if_False)
qed

lemma pin_unique:
  assumes "(pkg, v) \<in> set version_updates" and "prefix (pkg @ ''=='') t"
  shows "update_line version_updates t = Some (pkg @ v)"
  using assms unfolding pin_table
  by (elim disjE conjE; hypsubst;
      simp only: append.simps pin_requests pin_flask pin_django pin_numpy pin_setuptools)

lemma pin_not_comment:
  assumes "(pkg, v) \<in> set version_updates" and p: "prefix (pkg @ ''=='') t"
  shows "t \<noteq> [] \<and> \<not> prefix ''#'' t"
proof -
  from assms(1) obtain c cs where "pkg @ ''=='' = c # cs" "c \<noteq> CHR ''#''"
    unfolding pin_table by (elim disjE conjE; hypsubst; simp)
  with p show ?thesis
    using prefix_head_differs [of c cs t "CHR ''#''" "[]"] by auto
qed

lemma no_pin:
  assumes "\<forall>pkg v. (pkg, v) \<in> set version_updates \<longrightarrow> \<not> prefix (pkg @ ''=='') t"
  shows "update_line version_updates t = None"
proof -
  have "\<not> prefix (''requests'' @ ''=='') t" "\<not> prefix (''flask'' @ ''=='') t"
    "\<not> prefix (''django'' @ ''=='') t" "\<not> prefix (''numpy'' @ ''=='') t"
    "\<not> prefix (''setuptools'' @ ''=='') t"
    using assms pin_mem by (fast+)
  then have "\<not> prefix ''requests=='' t" "\<not> prefix ''flask=='' t"
    "\<not> prefix ''django=='' t" "\<not> prefix ''numpy=='' t"
    "\<not> prefix ''setuptools=='' t"
    by (simp_all only: append.simps simp_thms)
  then show ?thesis unfolding update_line_table by (simp only: if_False)
qed

text \<open>
  C9 (amended). For a non-empty manifest the result is computed line by line, each
  output line from the input line at the same place, after stripping the whitespace
  around it: a stripped line that is empty or starts with \<open>#\<close> is kept in its stripped
  form, a stripped line that starts with \<open>pkg==\<close> for a package of the update table
  becomes the package name followed by its entry, and any other line is kept in its
  stripped form, which is the line itself when no whitespace surrounds it.
\<close>

theorem generate_requirements_fix_linewise:
  assumes "current_content \<noteq> []"
  shows "generate_requirements_fix current_content
           = join [NL] (map rewrite_line (split_on NL current_content))
         \<and> (\<forall>l. (strip l = [] \<or> prefix ''#'' (strip l) \<longrightarrow> rewrite_line l = strip l)
              \<and> (\<forall>pkg v. (pkg, v) \<in> set version_updates \<and> prefix (pkg @ ''=='') (strip l)
                     \<longrightarrow> rewrite_line l = pkg @ v)
              \<and> ((\<forall>pkg v. (pkg, v) \<in> set version_updates \<longrightarrow> \<not> prefix (pkg @ ''=='') (strip l))
                     \<longrightarrow> rewrite_line l = strip l)
              \<and> (l \<noteq> [] \<and> \<not> isspace (hd l) \<and> \<not> isspace (last l) \<longrightarrow> strip l = l))"
proof -
  have a: "generate_requirements_fix current_content
      = join [NL] (map rewrite_line (split_on NL current_content))"
    using assms by (simp add: generate_requirements_fix_def fix_lines_map)
  have b: "strip l = [] \<or> prefix ''#'' (strip l) \<longrightarrow> rewrite_line l = strip l" for l
    unfolding rewrite_line_update by (rule impI) (simp only: if_True)
  have c: "(pkg, v) \<in> set version_updates \<and> prefix (pkg @ ''=='') (strip l)
      \<longrightarrow> rewrite_line l = pkg @ v" for l pkg v
  proof
    assume h: "(pkg, v) \<in> set version_updates \<and> prefix (pkg @ ''=='') (strip l)"
    then have "update_line version_updates (strip l) = Some (pkg @ v)"
      and "strip l \<noteq> [] \<and> \<not> prefix ''#'' (strip l)"
      using pin_unique pin_not_comment by blast+
    then show "rewrite_line l = pkg @ v"
      unfolding rewrite_line_update by (simp only: if_False option.case simp_thms)
  qed
  have d: "(\<forall>pkg v. (pkg, v) \<in> set version_updates \<longrightarrow> \<not> prefix (pkg @ ''=='') (strip l))
      \<longrightarrow> rewrite_line l = strip l" for l
  proof
    assume "\<forall>pkg v. (pkg, v) \<in> set version_updates \<longrightarrow> \<not> prefix (pkg @ ''=='') (strip l)"
    then have "update_line version_updates (strip l) = None" by (rule no_pin)
    then show "rewrite_line l = strip l"
      unfolding rewrite_line_update by (simp only: option.case if_cancel)
  qed
  have e: "l \<noteq> [] \<and> \<not> isspace (hd l) \<and> \<not> isspace (last l) \<longrightarrow> strip l = l" for l
    using strip_no_ws by blast
  from a b c d e show ?thesis by blast
qed

theorem generate_requirements_fix_linewise_witness:
  "''# a\<newline>\<newline> flask==1.1 \<newline>foo'' \<noteq> []
   \<and> generate_requirements_fix ''# a\<newline>\<newline> flask==1.1 \<newline>foo''
       = join [NL] (map rewrite_line (split_on NL ''# a\<newline>\<newline> flask==1.1 \<newline>foo''))
   \<and> generate_requirements_fix ''# a\<newline>\<newline> flask==1.1 \<newline>foo''
       = ''# a\<newline>\<newline>flask>=2.3.3\<newline>foo''"
proof -
  have h: "''# a\<newline>\<newline> flask==1.1 \<newline>foo'' \<noteq> []" by simp
  have v: "generate_requirements_fix ''# a\<newline>\<newline> flask==1.1 \<newline>foo''
      = ''# a\<newline>\<newline>flask>=2.3.3\<newline>foo''"
    by code_simp
  from generate_requirements_fix_linewise [OF h] h v show ?thesis by blast
qed

text \<open>
  C9 as stated fails: a line that is neither a comment, nor blank, nor a known pin is
  not returned character for character when whitespace surrounds it.
\<close>

theorem generate_requirements_fix_strips_counterexample:
  "generate_requirements_fix '' foo'' = ''foo''
   \<and> generate_requirements_fix '' foo'' \<noteq> '' foo''"
proof -
  have "generate_requirements_fix '' foo'' = ''foo''" by code_simp
  then show ?thesis by simp
qed

section \<open>Facts about the token scan\<close>


lemma scan_words_none:
  assumes "\<forall>w\<in>set ws. lower w \<in> set stoplist \<or>
             (\<not> (path_exists e w \<and> path_isdir e w) \<and>
              \<not> (path_exists e (path_join e (getcwd e) w) \<and> path_isdir e (path_join e (getcwd e) w)))"
  shows "scan_words e paths ws = paths"
  using assms
proof (induction ws arbitrary: paths)
  case Nil
  show ?case by simp
next
  case (Cons w ws)
  then show ?case by (auto simp: Let_def)
qed

lemma scan_words_agree:
  assumes "getcwd e' = getcwd e" "path_join e' = path_join e" "abspath e' = abspath e"
    and "\<forall>w\<in>set ws. lower w \<notin> set stoplist \<longrightarrow>
           path_exists e' w = path_exists e w \<and> path_isdir e' w = path_isdir e w \<and>
           path_exists e' (path_join e (getcwd e) w) = path_exists e (path_join e (getcwd e) w) \<and>
           path_isdir e' (path_join e (getcwd e) w) = path_isdir e (path_join e (getcwd e) w)"
  shows "scan_words e' paths ws = scan_words e paths ws"
  using assms(4)
proof (induction ws arbitrary: paths)
  case Nil
  show ?case by simp
next
  case (Cons w ws)
  show ?case
  proof (cases "lower w \<in> set stoplist")
    case True
    then show ?thesis using Cons by simp
  next
    case False
    with Cons.prems have a: "path_exists e' w = path_exists e w" "path_isdir e' w = path_isdir e w"
      "path_exists e' (path_join e (getcwd e) w) = path_exists e (path_join e (getcwd e) w)"
      "path_isdir e' (path_join e (getcwd e) w) = path_isdir e (path_join e (getcwd e) w)"
      by simp_all
    from Cons.prems have b: "\<forall>w\<in>set ws. lower w \<notin> set stoplist \<longrightarrow>
           path_exists e' w = path_exists e w \<and> path_isdir e' w = path_isdir e w \<and>
           path_exists e' (path_join e (getcwd e) w) = path_exists e (path_join e (getcwd e) w) \<and>
           path_isdir e' (path_join e (getcwd e) w) = path_isdir e (path_join e (getcwd e) w)"
      by simp
    show ?thesis
      using False a Cons.IH [OF b] by (simp add: Let_def assms(1,2,3))
  qed
qed

lemma extract_path_no_candidates:
  assumes "first_match path_patterns s = None"
    and "\<forall>w\<in>set (split_ws s). lower w \<in> set stoplist \<or>
             (\<not> (path_exists e w \<and> path_isdir e w) \<and>
              \<not> (path_exists e (path_join e (getcwd e) w) \<and> path_isdir e (path_join e (getcwd e) w)))"
  shows "extract_path e st s = (None, st)"
  using assms(1) scan_words_none [OF assms(2), of "[]"]
  by (simp add: extract_path_def)

lemma extract_path_stoplist_independent:
  assumes "getcwd e' = getcwd e" "path_join e' = path_join e" "abspath e' = abspath e"
    and "\<forall>w\<in>set (split_ws s). lower w \<notin> set stoplist \<longrightarrow>
           path_exists e' w = path_exists e w \<and> path_isdir e' w = path_isdir e w \<and>
           path_exists e' (path_join e (getcwd e) w) = path_exists e (path_join e (getcwd e) w) \<and>
           path_isdir e' (path_join e (getcwd e) w) = path_isdir e (path_join e (getcwd e) w)"
  shows "extract_path e' st s = extract_path e st s"
proof -
  have "scan_words e' [] (split_ws s) = scan_words e [] (split_ws s)"
    using assms by (rule scan_words_agree)
  then show ?thesis
    by (simp add: extract_path_def split: option.split)
qed

section \<open>Facts about the patterns and the state\<close>


lemma match_here_One_mem:
  "match_here r s = Some m \<Longrightarrow> One p \<in> set r \<Longrightarrow> \<exists>c\<in>set m. p c"
proof (induction r s arbitrary: m rule: match_here.induct)
  case (1 s)
  then show ?case by simp
next
  case (2 q r)
  then show ?case by simp
next
  case (3 q r c cs)
  then show ?case by (auto split: if_splits)
next
  case (4 q r)
  then show ?case by simp
next
  case (5 q r c cs)
  then show ?case by (auto split: if_splits option.splits)
qed

lemma match_here_prefix: "match_here r t = Some m \<Longrightarrow> prefix m t"
proof (induction r t arbitrary: m rule: match_here.induct)
  case (1 s)
  then show ?case by simp
next
  case (2 p r)
  then show ?case by simp
next
  case (3 p r c cs)
  then show ?case by (auto split: if_splits)
next
  case (4 p r)
  then show ?case by simp
next
  case (5 p r c cs)
  then show ?case by (auto split: if_splits option.splits)
qed

lemma match_here_classes:
  "match_here r t = Some m \<Longrightarrow> x \<in> set m \<Longrightarrow> \<exists>i\<in>set r. item_class i x"
proof (induction r t arbitrary: m rule: match_here.induct)
  case (1 s)
  then show ?case by simp
next
  case (2 p r)
  then show ?case by simp
next
  case (3 p r c cs)
  then show ?case by (fastforce split: if_splits)
next
  case (4 p r)
  then show ?case by fastforce
next
  case (5 p r c cs)
  then show ?case by (fastforce split: if_splits option.splits)
qed

lemma match_here_Many_total: "match_here [Many p] t \<noteq> None"
  by (induction t) (auto split: option.splits)

lemma match_here_Many_skip:
  "\<forall>c\<in>set mid. p c \<Longrightarrow> match_here r rest \<noteq> None \<Longrightarrow> match_here (Many p # r) (mid @ rest) \<noteq> None"
proof (induction mid)
  case Nil
  then show ?case by (cases rest) (auto split: option.splits)
next
  case (Cons c mid)
  then show ?case by (auto split: option.splits)
qed

lemma match_here_last_Many:
  "match_here r t = Some m \<Longrightarrow> r \<noteq> [] \<Longrightarrow> last r = Many p
   \<Longrightarrow> \<exists>post. t = m @ post \<and> (post = [] \<or> \<not> p (hd post))"
proof (induction r t arbitrary: m rule: match_here.induct)
  case (1 s)
  then show ?case by simp
next
  case (2 q r)
  then show ?case by simp
next
  case (3 q r c cs)
  from "3.prems" have qc: "q c" and r: "r \<noteq> []" by (auto split: if_splits)
  from "3.prems" qc obtain m' where m': "match_here r cs = Some m'" "m = c # m'" by auto
  from "3.prems" r have "last r = Many p" by simp
  from "3.IH" [OF qc m'(1) r this] m'(2) show ?case by auto
next
  case (4 q r)
  show ?case
  proof (cases "r = []")
    case True
    with "4.prems" show ?thesis by simp
  next
    case False
    with "4.prems" have "match_here r [] = Some m" "last r = Many p" by simp_all
    from "4.IH" [OF this(1) False this(2)] show ?thesis .
  qed
next
  case (5 q r c cs)
  show ?case
  proof (cases "q c")
    case True
    show ?thesis
    proof (cases "match_here (Many q # r) cs")
      case (Some m')
      with True "5.prems" have m: "m = c # m'" by simp
      from "5.IH"(1) [OF True Some _ "5.prems"(3)] m show ?thesis by auto
    next
      case None
      with True "5.prems" have a: "match_here r (c # cs) = Some m" by simp
      have "r \<noteq> []"
      proof
        assume "r = []"
        with None show False using match_here_Many_total [of q cs] by simp
      qed
      moreover from this "5.prems" have "last r = Many p" by simp
      ultimately show ?thesis using "5.IH"(2) [OF True None a] by blast
    qed
  next
    case False
    with "5.prems" have a: "match_here r (c # cs) = Some m" by simp
    show ?thesis
    proof (cases "r = []")
      case True
      with a "5.prems" False show ?thesis by auto
    next
      case r: False
      with "5.prems" have "last r = Many p" by simp
      from "5.IH"(3) [OF False a r this] show ?thesis .
    qed
  qed
qed

lemma re_search_found: "match_here r t \<noteq> None \<Longrightarrow> re_search r (pre @ t) \<noteq> None"
proof (induction pre)
  case Nil
  then show ?case by (cases t) (auto split: option.splits)
next
  case (Cons c pre)
  then show ?case by (auto split: option.splits)
qed

lemma re_search_leftmost:
  "re_search r s = Some m
   \<Longrightarrow> \<exists>pre t. s = pre @ t \<and> match_here r t = Some m
          \<and> (\<forall>k<length pre. match_here r (drop k s) = None)"
proof (induction s)
  case Nil
  then show ?case by simp
next
  case (Cons c cs)
  show ?case
  proof (cases "match_here r (c # cs)")
    case None
    with Cons.prems have "re_search r cs = Some m" by simp
    from Cons.IH [OF this] obtain pre t where p: "cs = pre @ t" "match_here r t = Some m"
      "\<forall>k<length pre. match_here r (drop k cs) = None" by blast
    have "\<forall>k<length (c # pre). match_here r (drop k (c # cs)) = None"
    proof (intro allI impI)
      fix k assume "k < length (c # pre)"
      then show "match_here r (drop k (c # cs)) = None"
        using None p(3) by (cases k) auto
    qed
    with p(1,2) have "c # cs = (c # pre) @ t \<and> match_here r t = Some m
        \<and> (\<forall>k<length (c # pre). match_here r (drop k (c # cs)) = None)" by simp
    then show ?thesis by blast
  next
    case (Some a)
    with Cons.prems have "c # cs = [] @ (c # cs) \<and> match_here r (c # cs) = Some m
       \<and> (\<forall>k<length ([]::string). match_here r (drop k (c # cs)) = None)" by simp
    then show ?thesis by blast
  qed
qed

lemma re_search_match: "re_search r s = Some m \<Longrightarrow> \<exists>t. match_here r t = Some m"
  by (induction s) (auto split: option.splits)

lemma first_match_pattern:
  "first_match ps s = Some m \<Longrightarrow> \<exists>r\<in>set ps. \<exists>t. match_here r t = Some m"
  by (induction ps) (auto split: option.splits dest: re_search_match)

lemma path_patterns_marker:
  assumes "r \<in> set path_patterns"
  shows "\<exists>p. One p \<in> set r \<and> (\<forall>c. p c \<longrightarrow> c \<in> {CHR ''/'', CHR '':'', CHR ''s'', BSL})"
proof -
  from assms consider
      "One (\<lambda>c. c = CHR ''/'') \<in> set r"
    | "One (\<lambda>c. c = CHR '':'') \<in> set r"
    | "One bsl_or_s \<in> set r"
    unfolding path_patterns_def unix_pattern_def by auto
  then show ?thesis
  proof cases
    case 1
    then show ?thesis by (intro exI [of _ "\<lambda>c. c = CHR ''/''"]) simp
  next
    case 2
    then show ?thesis by (intro exI [of _ "\<lambda>c. c = CHR '':''"]) simp
  next
    case 3
    then show ?thesis by (intro exI [of _ bsl_or_s]) (simp add: bsl_or_s_def)
  qed
qed

lemma first_match_marker:
  assumes "first_match path_patterns s = Some m"
  shows "\<exists>c\<in>set m. c \<in> {CHR ''/'', CHR '':'', CHR ''s'', BSL}"
proof -
  from first_match_pattern [OF assms] obtain r t
    where r: "r \<in> set path_patterns" and m: "match_here r t = Some m" by blast
  from path_patterns_marker [OF r] obtain p
    where p: "One p \<in> set r" "\<forall>c. p c \<longrightarrow> c \<in> {CHR ''/'', CHR '':'', CHR ''s'', BSL}" by blast
  from match_here_One_mem [OF m p(1)] p(2) show ?thesis by blast
qed

lemma remove_all_keeps: "c \<notin> set old \<Longrightarrow> c \<in> set s \<Longrightarrow> c \<in> set (remove_all old s)"
proof (induction old s rule: remove_all.induct)
  case (1 old s)
  show ?case
  proof (cases "old \<noteq> [] \<and> prefix old s")
    case True
    then obtain rest where s: "s = old @ rest" by (auto simp: prefix_def)
    with "1.prems" have "c \<in> set (drop (length old) s)" by simp
    with "1.IH"(1) [OF True "1.prems"(1)] True show ?thesis
      by (subst remove_all.simps) simp
  next
    case False
    show ?thesis
    proof (cases s)
      case Nil
      with "1.prems" show ?thesis by simp
    next
      case (Cons d ds)
      with "1.IH"(2) [OF False Cons "1.prems"(1)] "1.prems"(2) False show ?thesis
        by (subst remove_all.simps) auto
    qed
  qed
qed

lemma remove_all_absent:
  "c \<in> set old \<Longrightarrow> c \<notin> set s \<Longrightarrow> remove_all old s = s"
proof (induction s)
  case Nil
  then show ?case by (subst remove_all.simps) auto
next
  case (Cons d ds)
  have "\<not> prefix old (d # ds)"
  proof
    assume "prefix old (d # ds)"
    then have "set old \<subseteq> set (d # ds)" by (rule set_mono_prefix)
    with Cons.prems show False by blast
  qed
  with Cons show ?case by (subst remove_all.simps) auto
qed

lemma slash_not_space: "\<not> isspace (CHR ''/'')"
  by (simp add: isspace_def)

lemma unix_match_shape:
  assumes "match_here unix_pattern t = Some m"
  shows "(\<exists>m'. m = CHR ''/'' # m' \<and> CHR ''/'' \<in> set m')" and "\<forall>c\<in>set m. \<not> isspace c"
    and "\<exists>post. t = m @ post \<and> (post = [] \<or> isspace (hd post))"
proof -
  let ?rest = "[Many (\<lambda>c. \<not> isspace c), One (\<lambda>c. c = CHR ''/''), Many (\<lambda>c. \<not> isspace c)]"
  from assms obtain cs m' where t: "t = CHR ''/'' # cs" and m: "m = CHR ''/'' # m'"
    and r: "match_here ?rest cs = Some m'"
    unfolding unix_pattern_def by (cases t) (auto split: if_splits)
  from match_here_One_mem [OF r, of "\<lambda>c. c = CHR ''/''"] have "CHR ''/'' \<in> set m'" by simp
  with m show "\<exists>m'. m = CHR ''/'' # m' \<and> CHR ''/'' \<in> set m'" by simp
  show "\<forall>c\<in>set m. \<not> isspace c"
  proof
    fix c assume "c \<in> set m"
    from match_here_classes [OF assms this] show "\<not> isspace c"
      unfolding unix_pattern_def using slash_not_space by auto
  qed
  from match_here_last_Many [OF assms, of "\<lambda>c. \<not> isspace c"]
  show "\<exists>post. t = m @ post \<and> (post = [] \<or> isspace (hd post))"
    unfolding unix_pattern_def by simp
qed

lemma unix_match_exists:
  assumes "\<forall>c\<in>set mid. \<not> isspace c"
  shows "match_here unix_pattern (CHR ''/'' # mid @ CHR ''/'' # post) \<noteq> None"
proof -
  have "match_here [One (\<lambda>c. c = CHR ''/''), Many (\<lambda>c. \<not> isspace c)] (CHR ''/'' # post) \<noteq> None"
    using match_here_Many_total [of "\<lambda>c. \<not> isspace c" post] by simp
  from match_here_Many_skip [of mid "\<lambda>c. \<not> isspace c", OF assms this]
  show ?thesis unfolding unix_pattern_def by simp
qed

lemma unix_pattern_matches:
  "(re_search unix_pattern s \<noteq> None)
     = (\<exists>pre mid post. s = pre @ CHR ''/'' # mid @ CHR ''/'' # post \<and> (\<forall>c\<in>set mid. \<not> isspace c))"
proof
  assume "re_search unix_pattern s \<noteq> None"
  then obtain m where "re_search unix_pattern s = Some m" by blast
  from re_search_leftmost [OF this] obtain pre t
    where s: "s = pre @ t" and t: "match_here unix_pattern t = Some m" by blast
  from unix_match_shape [OF t] obtain m' post
    where m: "m = CHR ''/'' # m'" "CHR ''/'' \<in> set m'" and ws: "\<forall>c\<in>set m. \<not> isspace c"
      and p: "t = m @ post" by blast
  from m(2) obtain mid rest where m': "m' = mid @ CHR ''/'' # rest" by (auto dest: split_list)
  with ws m(1) have "\<forall>c\<in>set mid. \<not> isspace c" by simp
  moreover from s p m(1) m' have "s = pre @ CHR ''/'' # mid @ CHR ''/'' # (rest @ post)" by simp
  ultimately show "\<exists>pre mid post. s = pre @ CHR ''/'' # mid @ CHR ''/'' # post
                     \<and> (\<forall>c\<in>set mid. \<not> isspace c)" by blast
next
  assume "\<exists>pre mid post. s = pre @ CHR ''/'' # mid @ CHR ''/'' # post \<and> (\<forall>c\<in>set mid. \<not> isspace c)"
  then obtain pre mid post where s: "s = pre @ CHR ''/'' # mid @ CHR ''/'' # post"
    and ws: "\<forall>c\<in>set mid. \<not> isspace c" by blast
  from re_search_found [OF unix_match_exists [OF ws]] s
  show "re_search unix_pattern s \<noteq> None" by simp
qed

lemma clean_path_no_space:
  assumes "\<forall>c\<in>set m. \<not> isspace c"
  shows "clean_path m = m"
proof -
  have "\<not> CHR '' '' \<notin> set m \<Longrightarrow> False"
    using assms by (auto simp: isspace_def)
  then have sp: "CHR '' '' \<notin> set m" by blast
  have "remove_all ''project '' m = m" by (rule remove_all_absent [OF _ sp]) simp
  moreover have "remove_all ''directory '' m = m" by (rule remove_all_absent [OF _ sp]) simp
  moreover have "remove_all ''path '' m = m" by (rule remove_all_absent [OF _ sp]) simp
  ultimately show ?thesis by (simp only: clean_path_def)
qed

lemma extract_path_unix_match:
  assumes "re_search unix_pattern s = Some m"
  shows "extract_path e st s = (Some m, st)"
    and "\<exists>m'. m = CHR ''/'' # m' \<and> CHR ''/'' \<in> set m'"
    and "\<forall>c\<in>set m. \<not> isspace c"
    and "\<exists>pre post. s = pre @ m @ post \<and> (post = [] \<or> isspace (hd post))
              \<and> (\<forall>k<length pre. match_here unix_pattern (drop k s) = None)"
proof -
  from re_search_leftmost [OF assms] obtain pre t
    where s: "s = pre @ t" and t: "match_here unix_pattern t = Some m"
      and l: "\<forall>k<length pre. match_here unix_pattern (drop k s) = None" by blast
  from unix_match_shape(1) [OF t] show "\<exists>m'. m = CHR ''/'' # m' \<and> CHR ''/'' \<in> set m'" .
  from unix_match_shape(2) [OF t] show ws: "\<forall>c\<in>set m. \<not> isspace c" .
  from unix_match_shape(3) [OF t] obtain post
    where "t = m @ post" "post = [] \<or> isspace (hd post)" by blast
  with s l have "s = pre @ m @ post \<and> (post = [] \<or> isspace (hd post))
              \<and> (\<forall>k<length pre. match_here unix_pattern (drop k s) = None)" by simp
  then show "\<exists>pre post. s = pre @ m @ post \<and> (post = [] \<or> isspace (hd post))
              \<and> (\<forall>k<length pre. match_here unix_pattern (drop k s) = None)" by blast
  have "first_match path_patterns s = Some m"
    using assms by (simp add: path_patterns_def)
  then show "extract_path e st s = (Some m, st)"
    using clean_path_no_space [OF ws] by (simp add: extract_path_def)
qed

lemma clean_path_not_ambiguous:
  assumes "first_match path_patterns s = Some m"
  shows "clean_path m \<noteq> ''AMBIGUOUS''"
proof -
  from first_match_marker [OF assms] obtain c
    where c: "c \<in> set m" "c \<in> {CHR ''/'', CHR '':'', CHR ''s'', BSL}" by blast
  then have "c \<notin> set ''project ''" "c \<notin> set ''directory ''" "c \<notin> set ''path ''" by auto
  with c(1) have "c \<in> set (clean_path m)"
    unfolding clean_path_def by (intro remove_all_keeps)
  moreover from c(2) have "c \<notin> set ''AMBIGUOUS''" by auto
  ultimately show ?thesis by metis
qed


lemma scan_words_range:
  "set (scan_words e paths ws) \<subseteq> set paths \<union> range (abspath e)"
proof (induction ws arbitrary: paths)
  case Nil
  show ?case by simp
next
  case (Cons w ws)
  show ?case
  proof (cases "lower w \<in> set stoplist")
    case True
    then show ?thesis using Cons.IH [of paths] by simp
  next
    case False
    let ?p1 = "if path_exists e w \<and> path_isdir e w then set_add (abspath e w) paths else paths"
    let ?pp = "path_join e (getcwd e) w"
    let ?p2 = "if path_exists e ?pp \<and> path_isdir e ?pp then set_add (abspath e ?pp) ?p1 else ?p1"
    have "set ?p2 \<subseteq> set paths \<union> range (abspath e)"
      by (auto simp: set_add_def)
    moreover have "scan_words e paths (w # ws) = scan_words e ?p2 ws"
      using False by (simp add: Let_def)
    ultimately show ?thesis using Cons.IH [of ?p2] by auto
  qed
qed

lemma extract_path_result:
  assumes abs: "\<forall>p. abspath e p \<noteq> ''AMBIGUOUS''"
  shows "(fst (extract_path e st s) = Some ''AMBIGUOUS''
            \<and> (\<exists>ps. ps \<noteq> [] \<and> snd (extract_path e st s) = st\<lparr>ambiguous_paths := ps\<rparr>))
         \<or> (fst (extract_path e st s) \<noteq> Some ''AMBIGUOUS'' \<and> snd (extract_path e st s) = st)"
proof (cases "first_match path_patterns s")
  case (Some m)
  then show ?thesis
    using clean_path_not_ambiguous [OF Some] by (simp add: extract_path_def)
next
  case None
  let ?ps = "scan_words e [] (split_ws s)"
  consider "length ?ps = 0" | "length ?ps = 1" | "1 < length ?ps" by linarith
  then show ?thesis
  proof cases
    case 1
    with None show ?thesis by (simp add: extract_path_def)
  next
    case 2
    then have "hd ?ps \<in> set ?ps" by (cases ?ps) auto
    with scan_words_range [of e "[]" "split_ws s"] have "hd ?ps \<in> range (abspath e)" by auto
    with abs have "hd ?ps \<noteq> ''AMBIGUOUS''" by auto
    with None 2 show ?thesis by (simp add: extract_path_def Let_def)
  next
    case 3
    then have "?ps \<noteq> []" by auto
    with None 3 show ?thesis by (auto simp: extract_path_def Let_def)
  qed
qed

lemma project_analysis_flags:
  "ambiguous_paths (snd (project_analysis e st ui p)) = ambiguous_paths st
   \<and> waiting_for_path_selection (snd (project_analysis e st ui p)) = waiting_for_path_selection st"
  unfolding project_analysis_def Let_def
  by (simp split: sum.split)

lemma coding_request_flags:
  "snd (coding_request e st ui) = st"
  unfolding coding_request_def Let_def
  by (simp split: sum.split)

lemma analyze_request_invariant:
  assumes abs: "\<forall>p. abspath e p \<noteq> ''AMBIGUOUS''"
    and inv: "conversation_invariant st" and nw: "\<not> waiting_for_path_selection st"
  shows "conversation_invariant (snd (analyze_request e st ui))"
proof -
  let ?st = "st\<lparr>original_request := ui\<rparr>"
  let ?x = "extract_path e ?st ui"
  from inv nw have e0: "ambiguous_paths ?st = []" "\<not> waiting_for_path_selection ?st"
    by (simp_all add: conversation_invariant_def)
  from extract_path_result [OF abs, of ?st ui] consider
      ps where "fst ?x = Some ''AMBIGUOUS''" "ps \<noteq> []" "snd ?x = ?st\<lparr>ambiguous_paths := ps\<rparr>"
    | "fst ?x \<noteq> Some ''AMBIGUOUS''" "snd ?x = ?st"
    by blast
  then show ?thesis
  proof cases
    case 1
    then show ?thesis
      by (simp add: analyze_request_def Let_def case_prod_beta conversation_invariant_def)
  next
    case 2
    have "conversation_invariant ?st"
      using e0 by (simp add: conversation_invariant_def)
    then have a: "conversation_invariant (snd (project_analysis e ?st ui p))" for p
      using project_analysis_flags [of e ?st ui p] by (simp add: conversation_invariant_def)
    have b: "conversation_invariant (snd (coding_request e ?st ui))"
      using \<open>conversation_invariant ?st\<close> by (simp add: coding_request_flags)
    show ?thesis
      using 2 a b \<open>conversation_invariant ?st\<close>
      by (simp add: analyze_request_def Let_def case_prod_beta split: option.split)
  qed
qed

lemma handle_path_selection_invariant:
  assumes "conversation_invariant st"
  shows "conversation_invariant (snd (handle_path_selection e st ui))"
  using assms unfolding handle_path_selection_def Let_def conversation_invariant_def
  by (simp split: option.split)

lemma handle_path_selection_cleared:
  assumes "\<not> prefix ''QUESTION:'' (fst (handle_path_selection e st ui))"
  shows "ambiguous_paths (snd (handle_path_selection e st ui)) = []
         \<and> \<not> waiting_for_path_selection (snd (handle_path_selection e st ui))"
  using assms unfolding handle_path_selection_def Let_def
  by (simp split: option.splits if_splits)

lemma analyze_invariant:
  assumes abs: "\<forall>p. abspath e p \<noteq> ''AMBIGUOUS''" and inv: "conversation_invariant st"
  shows "conversation_invariant (snd (analyze e st ui))"
proof (cases "waiting_for_path_selection st")
  case False
  then show ?thesis
    using analyze_request_invariant [OF abs inv False] by (subst analyze.simps) simp
next
  case True
  let ?r = "handle_path_selection e st ui"
  show ?thesis
  proof (cases "prefix ''QUESTION:'' (fst ?r)")
    case q: True
    with True show ?thesis
      using handle_path_selection_invariant [OF inv, of e ui]
      by (subst analyze.simps) (simp add: Let_def)
  next
    case q: False
    let ?st = "(snd ?r)\<lparr>current_project_path := Some (fst ?r)\<rparr>"
    from handle_path_selection_cleared [OF q]
    have c: "conversation_invariant ?st" "\<not> waiting_for_path_selection ?st"
      by (simp_all add: conversation_invariant_def)
    have "analyze e st ui = analyze e ?st (original_request (snd ?r))"
      using True q by (subst analyze.simps) (simp add: Let_def)
    also have "\<dots> = analyze_request e ?st (original_request (snd ?r))"
      using c(2) by (subst analyze.simps) simp
    finally show ?thesis
      using analyze_request_invariant [OF abs c] by simp
  qed
qed

section \<open>Path extraction: the claims\<close>

text \<open>
  C2 (amended). For every input in which none of the five path patterns matches and in
  which no whitespace-separated token names an existing directory, neither as it is
  written nor joined to the working directory, \<open>extract_path\<close> returns \<open>None\<close> and
  leaves the state as it was. The first pattern matches exactly the texts that hold a
  slash followed, with no whitespace in between, by another slash; on every such text
  and every file system \<open>extract_path\<close> returns the leftmost match of that pattern as
  it is, with no test of the file system, and leaves the state as it was. That match
  starts with a slash, holds a second slash and no whitespace, and ends where the next
  whitespace character or the end of the text is.
\<close>

theorem extract_path_no_directory_tokens:
  "(first_match path_patterns s = None
      \<and> (\<forall>w\<in>set (split_ws s).
            \<not> (path_exists e w \<and> path_isdir e w) \<and>
            \<not> (path_exists e (path_join e (getcwd e) w) \<and> path_isdir e (path_join e (getcwd e) w)))
      \<longrightarrow> extract_path e st s = (None, st))
   \<and> ((re_search unix_pattern s \<noteq> None)
        = (\<exists>pre mid post. s = pre @ CHR ''/'' # mid @ CHR ''/'' # post
                          \<and> (\<forall>c\<in>set mid. \<not> isspace c)))
   \<and> (\<forall>m. re_search unix_pattern s = Some m \<longrightarrow>
          extract_path e st s = (Some m, st)
          \<and> (\<exists>m'. m = CHR ''/'' # m' \<and> CHR ''/'' \<in> set m')
          \<and> (\<forall>c\<in>set m. \<not> isspace c)
          \<and> (\<exists>pre post. s = pre @ m @ post \<and> (post = [] \<or> isspace (hd post))
                \<and> (\<forall>k<length pre. match_here unix_pattern (drop k s) = None)))"
proof (intro conjI allI impI)
  assume a: "first_match path_patterns s = None
      \<and> (\<forall>w\<in>set (split_ws s).
            \<not> (path_exists e w \<and> path_isdir e w) \<and>
            \<not> (path_exists e (path_join e (getcwd e) w) \<and> path_isdir e (path_join e (getcwd e) w)))"
  then have "\<forall>w\<in>set (split_ws s). lower w \<in> set stoplist \<or>
          (\<not> (path_exists e w \<and> path_isdir e w) \<and>
           \<not> (path_exists e (path_join e (getcwd e) w) \<and> path_isdir e (path_join e (getcwd e) w)))"
    by blast
  with a show "extract_path e st s = (None, st)"
    by (intro extract_path_no_candidates) simp_all
next
  show "(re_search unix_pattern s \<noteq> None)
        = (\<exists>pre mid post. s = pre @ CHR ''/'' # mid @ CHR ''/'' # post
                          \<and> (\<forall>c\<in>set mid. \<not> isspace c))"
    by (rule unix_pattern_matches)
next
  fix m assume m: "re_search unix_pattern s = Some m"
  show "extract_path e st s = (Some m, st)" by (rule extract_path_unix_match(1) [OF m])
  show "\<exists>m'. m = CHR ''/'' # m' \<and> CHR ''/'' \<in> set m'" by (rule extract_path_unix_match(2) [OF m])
  show "\<forall>c\<in>set m. \<not> isspace c" by (rule extract_path_unix_match(3) [OF m])
  show "\<exists>pre post. s = pre @ m @ post \<and> (post = [] \<or> isspace (hd post))
                \<and> (\<forall>k<length pre. match_here unix_pattern (drop k s) = None)"
    by (rule extract_path_unix_match(4) [OF m])
qed

theorem extract_path_no_directory_tokens_witness:
  "first_match path_patterns ''hello world'' = None
   \<and> split_ws ''hello world'' = [''hello'', ''world'']
   \<and> extract_path demo_env init_reasoner ''hello world'' = (None, init_reasoner)
   \<and> re_search unix_pattern ''see http://x.com/a and /a/b'' = Some ''//x.com/a''
   \<and> extract_path no_dirs_env init_reasoner ''see http://x.com/a and /a/b''
       = (Some ''//x.com/a'', init_reasoner)
   \<and> extract_path demo_env init_reasoner ''scan /tmp/demo/src now''
       = (Some ''/tmp/demo/src'', init_reasoner)"
proof -
  have m: "first_match path_patterns ''hello world'' = None" by code_simp
  have w: "split_ws ''hello world'' = [''hello'', ''world'']" by code_simp
  have d: "\<forall>w\<in>set (split_ws ''hello world'').
           \<not> (path_exists demo_env w \<and> path_isdir demo_env w) \<and>
           \<not> (path_exists demo_env (path_join demo_env (getcwd demo_env) w)
               \<and> path_isdir demo_env (path_join demo_env (getcwd demo_env) w))"
    unfolding w by (simp add: demo_env_def posix_join_def)
  have u: "re_search unix_pattern ''see http://x.com/a and /a/b'' = Some ''//x.com/a''"
    by code_simp
  have v: "re_search unix_pattern ''scan /tmp/demo/src now'' = Some ''/tmp/demo/src''"
    by code_simp
  note t1 = extract_path_no_directory_tokens
              [where s = "''hello world''" and e = demo_env and st = init_reasoner]
  note t2 = extract_path_no_directory_tokens
              [where s = "''see http://x.com/a and /a/b''" and e = no_dirs_env and st = init_reasoner]
  note t3 = extract_path_no_directory_tokens
              [where s = "''scan /tmp/demo/src now''" and e = demo_env and st = init_reasoner]
  from t1 m d have a: "extract_path demo_env init_reasoner ''hello world'' = (None, init_reasoner)"
    by (elim conjE) (erule mp, intro conjI)
  from t2 have "\<forall>m. re_search unix_pattern ''see http://x.com/a and /a/b'' = Some m \<longrightarrow>
       extract_path no_dirs_env init_reasoner ''see http://x.com/a and /a/b'' = (Some m, init_reasoner)"
    by (elim conjE) (intro allI impI, drule spec, drule mp, assumption, elim conjE, assumption)
  with u have b: "extract_path no_dirs_env init_reasoner ''see http://x.com/a and /a/b''
       = (Some ''//x.com/a'', init_reasoner)"
    by (elim allE impE) assumption+
  from t3 have "\<forall>m. re_search unix_pattern ''scan /tmp/demo/src now'' = Some m \<longrightarrow>
       extract_path demo_env init_reasoner ''scan /tmp/demo/src now'' = (Some m, init_reasoner)"
    by (elim conjE) (intro allI impI, drule spec, drule mp, assumption, elim conjE, assumption)
  with v have c: "extract_path demo_env init_reasoner ''scan /tmp/demo/src now''
       = (Some ''/tmp/demo/src'', init_reasoner)"
    by (elim allE impE) assumption+
  show ?thesis by (intro conjI) (rule m w a u b c)+
qed

text \<open>
  C2 as stated fails: where nothing is a directory, the text \<open>/a/b\<close> has no token that
  names a directory, and \<open>extract_path\<close> returns \<open>/a/b\<close>.
\<close>

theorem extract_path_unix_shape_counterexample:
  "split_ws ''/a/b'' = [''/a/b'']
   \<and> \<not> path_isdir no_dirs_env ''/a/b''
   \<and> \<not> path_isdir no_dirs_env (path_join no_dirs_env (getcwd no_dirs_env) ''/a/b'')
   \<and> fst (extract_path no_dirs_env init_reasoner ''/a/b'') = Some ''/a/b''"
  by code_simp

text \<open>
  C3, at the input \<open>project myapp\<close>: no pattern matches, the keyword pattern included
  (after \<open>project\<close> it asks for a backslash or the letter s), so the token scan
  decides, and with no directory \<open>myapp\<close> the result is \<open>None\<close>, not \<open>myapp\<close>.
\<close>

theorem extract_path_keyword_phrase_unmatched:
  "first_match path_patterns ''project myapp'' = None
   \<and> re_search (lit ''project'' @ [One bsl_or_s, Many (\<lambda>c. \<not> bsl_or_s c)]) ''project myapp'' = None
   \<and> extract_path no_dirs_env init_reasoner ''project myapp'' = (None, init_reasoner)"
  by code_simp

text \<open>
  C10, at the input \<open>check projects 1\<close> on a machine whose working directory holds a
  directory \<open>1\<close>. The text has no slash, colon or backslash and none of its tokens is
  one of the three keywords; the only token that names a directory is the stoplist
  word \<open>1\<close>. The pattern of the keyword \<open>project\<close> matches \<open>projects 1\<close> all the same
  (after the keyword it asks for a backslash or the letter s), so the token scan is
  not reached and the result is \<open>projects 1\<close>, not \<open>None\<close>. On \<open>check Security 1\<close>,
  where no pattern matches, the result is \<open>None\<close>.
\<close>

theorem stoplist_directory_beside_plain_word:
  "split_ws ''check projects 1'' = [''check'', ''projects'', ''1'']
   \<and> lower ''check'' \<in> set stoplist \<and> lower ''1'' \<in> set stoplist
   \<and> path_exists stopword_dirs_env ''1'' \<and> path_isdir stopword_dirs_env ''1''
   \<and> \<not> path_isdir stopword_dirs_env ''projects''
   \<and> \<not> path_isdir stopword_dirs_env
         (path_join stopword_dirs_env (getcwd stopword_dirs_env) ''projects'')
   \<and> CHR ''/'' \<notin> set ''check projects 1'' \<and> CHR '':'' \<notin> set ''check projects 1''
   \<and> BSL \<notin> set ''check projects 1''
   \<and> re_search (lit ''project'' @ [One bsl_or_s, Many (\<lambda>c. \<not> bsl_or_s c)]) ''check projects 1''
       = Some ''projects 1''
   \<and> extract_path stopword_dirs_env init_reasoner ''check projects 1''
       = (Some ''projects 1'', init_reasoner)
   \<and> extract_path stopword_dirs_env init_reasoner ''check Security 1'' = (None, init_reasoner)"
  by code_simp

section \<open>Path selection: the claims\<close>

text \<open>
  C7. When the stripped input converts to an integer \<open>i\<close>, it is a 1-based index:
  within the list it selects the candidate \<open>i - 1\<close> and clears the list and the flag;
  out of range (0 and the negative numbers included) the answer is the question
  about an invalid selection and the state is unchanged. When it does not convert, the
  input itself is selected if it is an existing directory (list and flag cleared),
  and otherwise the answer is the question about a valid number or path and the state
  is unchanged.
\<close>

theorem handle_path_selection_cases:
  "(py_int e (strip ui) = Some i \<and> 1 \<le> i \<and> i \<le> int (length (ambiguous_paths st)) \<longrightarrow>
      handle_path_selection e st ui =
        (ambiguous_paths st ! nat (i - 1),
         st\<lparr>ambiguous_paths := [], waiting_for_path_selection := False\<rparr>))
   \<and> (py_int e (strip ui) = Some i \<and> (i < 1 \<or> int (length (ambiguous_paths st)) < i) \<longrightarrow>
      handle_path_selection e st ui =
        (''QUESTION: Invalid selection. Please choose a number from the list.'', st))
   \<and> (py_int e (strip ui) = None \<and> path_exists e ui \<and> path_isdir e ui \<longrightarrow>
      handle_path_selection e st ui =
        (ui, st\<lparr>ambiguous_paths := [], waiting_for_path_selection := False\<rparr>))
   \<and> (py_int e (strip ui) = None \<and> \<not> (path_exists e ui \<and> path_isdir e ui) \<longrightarrow>
      handle_path_selection e st ui =
        (''QUESTION: Please enter a valid number from the list or provide a full path.'', st))"
  unfolding handle_path_selection_def Let_def
  by (cases "py_int e (strip ui)")
     (simp_all only: option.case option.inject option.distinct simp_thms if_True if_False, auto)

theorem handle_path_selection_cases_witness:
  "ambiguous_paths awaiting_abc = [''/x/a'', ''/x/b'', ''/x/c'']
   \<and> py_int demo_env (strip ''2'') = Some 2
   \<and> handle_path_selection demo_env awaiting_abc ''2''
       = (''/x/b'', awaiting_abc\<lparr>ambiguous_paths := [], waiting_for_path_selection := False\<rparr>)
   \<and> handle_path_selection demo_env awaiting_abc ''5''
       = (''QUESTION: Invalid selection. Please choose a number from the list.'', awaiting_abc)
   \<and> handle_path_selection demo_env awaiting_abc ''0''
       = (''QUESTION: Invalid selection. Please choose a number from the list.'', awaiting_abc)
   \<and> handle_path_selection demo_env awaiting_abc ''-1''
       = (''QUESTION: Invalid selection. Please choose a number from the list.'', awaiting_abc)
   \<and> handle_path_selection demo_env awaiting_abc ''not-a-number-or-path''
       = (''QUESTION: Please enter a valid number from the list or provide a full path.'',
          awaiting_abc)
   \<and> handle_path_selection demo_env awaiting_abc ''/tmp/demo''
       = (''/tmp/demo'', awaiting_abc\<lparr>ambiguous_paths := [], waiting_for_path_selection := False\<rparr>)"
proof -
  have a: "ambiguous_paths awaiting_abc = [''/x/a'', ''/x/b'', ''/x/c'']"
    by (simp add: awaiting_abc_def)
  have p2: "py_int demo_env (strip ''2'') = Some 2" by code_simp
  have p5: "py_int demo_env (strip ''5'') = Some 5" by code_simp
  have p0: "py_int demo_env (strip ''0'') = Some 0" by code_simp
  have pm: "py_int demo_env (strip ''-1'') = Some (- 1)" by code_simp
  have pn: "py_int demo_env (strip ''not-a-number-or-path'') = None" by code_simp
  have pd: "py_int demo_env (strip ''/tmp/demo'') = None" by code_simp
  have dn: "\<not> (path_exists demo_env ''not-a-number-or-path''
               \<and> path_isdir demo_env ''not-a-number-or-path'')"
    by (simp add: demo_env_def)
  have dd: "path_exists demo_env ''/tmp/demo'' \<and> path_isdir demo_env ''/tmp/demo''"
    by (simp add: demo_env_def)
  have "handle_path_selection demo_env awaiting_abc ''2''
       = (''/x/b'', awaiting_abc\<lparr>ambiguous_paths := [], waiting_for_path_selection := False\<rparr>)"
    using handle_path_selection_cases [of demo_env "''2''" 2 awaiting_abc] p2 a by simp
  moreover have "handle_path_selection demo_env awaiting_abc ''5''
       = (''QUESTION: Invalid selection. Please choose a number from the list.'', awaiting_abc)"
    using handle_path_selection_cases [of demo_env "''5''" 5 awaiting_abc] p5 a by simp
  moreover have "handle_path_selection demo_env awaiting_abc ''0''
       = (''QUESTION: Invalid selection. Please choose a number from the list.'', awaiting_abc)"
    using handle_path_selection_cases [of demo_env "''0''" 0 awaiting_abc] p0 a by simp
  moreover have "handle_path_selection demo_env awaiting_abc ''-1''
       = (''QUESTION: Invalid selection. Please choose a number from the list.'', awaiting_abc)"
    using handle_path_selection_cases [of demo_env "''-1''" "- 1" awaiting_abc] pm a by simp
  moreover have "handle_path_selection demo_env awaiting_abc ''not-a-number-or-path''
       = (''QUESTION: Please enter a valid number from the list or provide a full path.'',
          awaiting_abc)"
    using handle_path_selection_cases [of demo_env "''not-a-number-or-path''" 0 awaiting_abc] pn dn
    by blast
  moreover have "handle_path_selection demo_env awaiting_abc ''/tmp/demo''
       = (''/tmp/demo'', awaiting_abc\<lparr>ambiguous_paths := [], waiting_for_path_selection := False\<rparr>)"
    using handle_path_selection_cases [of demo_env "''/tmp/demo''" 0 awaiting_abc] pd dd
    by blast
  ultimately show ?thesis using a p2 by blast
qed

section \<open>The conversation state: the claims\<close>

text \<open>
  C6. The list of ambiguous paths is non-empty exactly when a selection is awaited: this
  holds in the state \<open>__init__\<close> builds, and every call of \<open>analyze\<close> and of
  \<open>handle_path_selection\<close> in a state where it holds ends in a state where it holds
  (also when \<open>analyze\<close> ends by an exception of a service it calls). A selection that
  is not answered by a question leaves the list empty and the flag down. The file
  system is taken to return absolute paths from \<open>os.path.abspath\<close>, none of which is
  the bare word \<open>AMBIGUOUS\<close>.
\<close>

theorem conversation_invariant_preserved:
  assumes "\<forall>p. abspath e p \<noteq> ''AMBIGUOUS''"
  shows "conversation_invariant init_reasoner
         \<and> (conversation_invariant st \<longrightarrow>
              conversation_invariant (snd (analyze e st ui))
              \<and> conversation_invariant (snd (handle_path_selection e st ui)))
         \<and> (\<not> prefix ''QUESTION:'' (fst (handle_path_selection e st ui)) \<longrightarrow>
              ambiguous_paths (snd (handle_path_selection e st ui)) = []
              \<and> \<not> waiting_for_path_selection (snd (handle_path_selection e st ui)))"
proof -
  have "conversation_invariant init_reasoner"
    by (simp add: conversation_invariant_def init_reasoner_def)
  then show ?thesis
    using analyze_invariant [OF assms] handle_path_selection_invariant
      handle_path_selection_cleared
    by blast
qed

theorem conversation_invariant_preserved_witness:
  "conversation_invariant init_reasoner
   \<and> ambiguous_paths (snd (analyze two_dirs_env init_reasoner ''look at app lib''))
       = [''/home/app'', ''/home/lib'']
   \<and> waiting_for_path_selection (snd (analyze two_dirs_env init_reasoner ''look at app lib''))
   \<and> conversation_invariant (snd (analyze two_dirs_env init_reasoner ''look at app lib''))
   \<and> conversation_invariant
       (snd (analyze two_dirs_env (snd (analyze two_dirs_env init_reasoner ''look at app lib'')) ''7''))
   \<and> conversation_invariant
       (snd (analyze two_dirs_env (snd (analyze two_dirs_env init_reasoner ''look at app lib'')) ''1''))"
proof -
  have abs: "\<forall>p. abspath two_dirs_env p \<noteq> ''AMBIGUOUS''"
    by (auto simp: two_dirs_env_def demo_env_def posix_join_def)
  have i: "conversation_invariant init_reasoner"
    using conversation_invariant_preserved [OF abs] by blast
  have s: "\<And>st ui. conversation_invariant st \<Longrightarrow>
      conversation_invariant (snd (analyze two_dirs_env st ui))"
    using conversation_invariant_preserved [OF abs] by blast
  have a: "ambiguous_paths (snd (analyze two_dirs_env init_reasoner ''look at app lib''))
       = [''/home/app'', ''/home/lib'']"
    by code_simp
  have w: "waiting_for_path_selection (snd (analyze two_dirs_env init_reasoner ''look at app lib''))"
    by code_simp
  from i s [OF i] s [OF s [OF i]] a w show ?thesis by blast
qed

section \<open>The stored project path: the claim\<close>

text \<open>
  C1, at a session of two turns. The first request names the existing directory
  \<open>/tmp/demo\<close>; it is scanned and stored as the current project path. The second
  request, \<open>scan again\<close>, is a project request from which no path is extracted: the
  answer is the question for a path, and the stored path is not looked at.
\<close>

theorem stored_project_path_not_used:
  "current_project_path (snd (analyze demo_env init_reasoner ''scan /tmp/demo'')) = Some ''/tmp/demo''
   \<and> path_exists demo_env ''/tmp/demo'' \<and> path_isdir demo_env ''/tmp/demo''
   \<and> list_ex (\<lambda>keyword. sublist keyword (lower ''scan again'')) project_keywords
   \<and> fst (extract_path demo_env (snd (analyze demo_env init_reasoner ''scan /tmp/demo'')) ''scan again'')
       = None
   \<and> fst (analyze demo_env (snd (analyze demo_env init_reasoner ''scan /tmp/demo'')) ''scan again'')
       = Inr ''QUESTION: Please provide the path to the project you want me to analyze.''"
  by code_simp

section \<open>Facts about the report fields\<close>


lemma find_label_decompose:
  "find_label l s = Some rest \<Longrightarrow> \<exists>pre. s = pre @ l @ rest"
proof (induction s)
  case Nil
  then show ?case by (auto split: if_splits)
next
  case (Cons c cs)
  show ?case
  proof (cases "prefix l (c # cs)")
    case True
    with Cons.prems have "rest = drop (length l) (c # cs)" by simp
    with True have "c # cs = [] @ l @ rest" by (auto simp: prefix_def)
    then show ?thesis by blast
  next
    case False
    with Cons.prems have "find_label l cs = Some rest" by simp
    from Cons.IH [OF this] obtain pre where "cs = pre @ l @ rest" by blast
    then have "c # cs = (c # pre) @ l @ rest" by simp
    then show ?thesis by blast
  qed
qed

lemma find_label_absent:
  "\<not> sublist l s \<Longrightarrow> find_label l s = None"
proof (induction s)
  case Nil
  then show ?case by auto
next
  case (Cons c cs)
  then have "\<not> prefix l (c # cs)" "\<not> sublist l cs"
    by (auto simp: sublist_Cons_right)
  with Cons.IH show ?case by simp
qed

lemma before_label_absent:
  "\<not> sublist l t \<Longrightarrow> before_label l t = t"
proof (induction t)
  case Nil
  show ?case by simp
next
  case (Cons c cs)
  then have "\<not> prefix l (c # cs)" "\<not> sublist l cs"
    by (auto simp: sublist_Cons_right)
  with Cons.IH show ?case by simp
qed

lemma sublist_dropWhile: "sublist l (dropWhile P t) \<Longrightarrow> sublist l t"
proof -
  assume a: "sublist l (dropWhile P t)"
  have "t = takeWhile P t @ dropWhile P t" by simp
  with a show ?thesis by (metis sublist_append)
qed

lemma strip_dropWhile: "strip (dropWhile isspace t) = strip t"
  by (simp add: strip_def dropWhile_idem)

lemma sublist_after_label:
  assumes "find_label l s = Some rest" "sublist k rest"
  shows "sublist k s"
proof -
  from find_label_decompose [OF assms(1)] obtain pre where "s = (pre @ l) @ rest" by auto
  with assms(2) show ?thesis by (metis sublist_append)
qed

lemma report_no_risk:
  assumes "\<not> sublist ''RISK_LEVEL:'' decision"
  shows "risk_level (extract_report decision) = ''Unknown''
         \<and> assessment (extract_report decision)
             = (case find_label ''ASSESSMENT:'' decision of
                  Some rest \<Rightarrow> strip rest
                | None \<Rightarrow> ''No assessment provided'')"
proof -
  have r: "risk_level (extract_report decision) = ''Unknown''"
    using find_label_absent [OF assms] by (simp add: extract_report_def)
  have a: "assessment (extract_report decision)
             = (case find_label ''ASSESSMENT:'' decision of
                  Some rest \<Rightarrow> strip rest
                | None \<Rightarrow> ''No assessment provided'')"
  proof (cases "find_label ''ASSESSMENT:'' decision")
    case None
    then show ?thesis by (simp add: extract_report_def)
  next
    case (Some rest)
    have "\<not> sublist ''RISK_LEVEL:'' (dropWhile isspace rest)"
      using assms sublist_after_label [OF Some] sublist_dropWhile by blast
    then have "before_label ''RISK_LEVEL:'' (dropWhile isspace rest) = dropWhile isspace rest"
      by (rule before_label_absent)
    with Some show ?thesis by (simp add: extract_report_def strip_dropWhile)
  qed
  from r a show ?thesis by blast
qed

section \<open>The report fields: the claim\<close>

text \<open>
  C4 (amended). For every response text without the label \<open>RISK_LEVEL:\<close> that holds
  the labels \<open>ASSESSMENT:\<close>, \<open>RECOMMENDATIONS:\<close> and \<open>QUESTIONS:\<close>: the risk level is
  \<open>Unknown\<close>; the recommendations are the stripped text between the first
  \<open>RECOMMENDATIONS:\<close> and the next \<open>QUESTIONS:\<close>, and the questions the stripped
  text after the first \<open>QUESTIONS:\<close>, as they are when the risk label is present; but
  the assessment is the stripped text from the first \<open>ASSESSMENT:\<close> to the end of the
  whole text, the later sections included, since only \<open>RISK_LEVEL:\<close> ends it.
\<close>

theorem report_without_risk_label:
  assumes "\<not> sublist ''RISK_LEVEL:'' decision"
    and "find_label ''ASSESSMENT:'' decision = Some after_a"
    and "find_label ''RECOMMENDATIONS:'' decision = Some after_r"
    and "find_label ''QUESTIONS:'' decision = Some after_q"
  shows "extract_report decision =
           \<lparr>assessment = strip after_a,
            risk_level = ''Unknown'',
            recommendations = strip (before_label ''QUESTIONS:'' (dropWhile isspace after_r)),
            questions = strip after_q\<rparr>
         \<and> (\<exists>before_a. decision = before_a @ ''ASSESSMENT:'' @ after_a)
         \<and> (\<exists>before_r. decision = before_r @ ''RECOMMENDATIONS:'' @ after_r)
         \<and> (\<exists>before_q. decision = before_q @ ''QUESTIONS:'' @ after_q)"
proof -
  from report_no_risk [OF assms(1)] assms(2)
  have "risk_level (extract_report decision) = ''Unknown''"
    and "assessment (extract_report decision) = strip after_a"
    by simp_all
  moreover have "recommendations (extract_report decision)
      = strip (before_label ''QUESTIONS:'' (dropWhile isspace after_r))"
    using assms(3) by (simp add: extract_report_def)
  moreover have "questions (extract_report decision) = strip after_q"
    using assms(4) by (simp add: extract_report_def strip_dropWhile)
  ultimately have "extract_report decision =
           \<lparr>assessment = strip after_a,
            risk_level = ''Unknown'',
            recommendations = strip (before_label ''QUESTIONS:'' (dropWhile isspace after_r)),
            questions = strip after_q\<rparr>"
    by (cases "extract_report decision") simp
  then show ?thesis
    using find_label_decompose [OF assms(2)] find_label_decompose [OF assms(3)]
      find_label_decompose [OF assms(4)]
    by blast
qed

theorem report_without_risk_label_witness:
  "\<not> sublist ''RISK_LEVEL:''
       ''ASSESSMENT: ok\<newline>RECOMMENDATIONS: patch X\<newline>QUESTIONS: null''
   \<and> extract_report ''ASSESSMENT: ok\<newline>RECOMMENDATIONS: patch X\<newline>QUESTIONS: null'' =
       \<lparr>assessment = ''ok\<newline>RECOMMENDATIONS: patch X\<newline>QUESTIONS: null'',
        risk_level = ''Unknown'',
        recommendations = ''patch X'',
        questions = ''null''\<rparr>"
proof -
  let ?d = "''ASSESSMENT: ok\<newline>RECOMMENDATIONS: patch X\<newline>QUESTIONS: null''"
  have n: "\<not> sublist ''RISK_LEVEL:'' ?d" by code_simp
  have a: "find_label ''ASSESSMENT:'' ?d
      = Some '' ok\<newline>RECOMMENDATIONS: patch X\<newline>QUESTIONS: null''"
    by code_simp
  have r: "find_label ''RECOMMENDATIONS:'' ?d = Some '' patch X\<newline>QUESTIONS: null''"
    by code_simp
  have q: "find_label ''QUESTIONS:'' ?d = Some '' null''" by code_simp
  have v: "strip '' ok\<newline>RECOMMENDATIONS: patch X\<newline>QUESTIONS: null''
      = ''ok\<newline>RECOMMENDATIONS: patch X\<newline>QUESTIONS: null''"
    "strip (before_label ''QUESTIONS:'' (dropWhile isspace '' patch X\<newline>QUESTIONS: null''))
      = ''patch X''"
    "strip '' null'' = ''null''"
    by code_simp+
  from report_without_risk_label [OF n a r q] have "extract_report ?d =
       \<lparr>assessment = strip '' ok\<newline>RECOMMENDATIONS: patch X\<newline>QUESTIONS: null'',
        risk_level = ''Unknown'',
        recommendations =
          strip (before_label ''QUESTIONS:'' (dropWhile isspace '' patch X\<newline>QUESTIONS: null'')),
        questions = strip '' null''\<rparr>"
    by blast
  with n show ?thesis unfolding v by blast
qed

text \<open>
  C4 as stated fails: with the risk line the assessment of the example is \<open>ok\<close>;
  without it the assessment also holds the recommendations and the questions.
\<close>

theorem report_assessment_counterexample:
  "assessment (extract_report
       ''ASSESSMENT: ok\<newline>RISK_LEVEL: Low\<newline>RECOMMENDATIONS: patch X\<newline>QUESTIONS: null'')
     = ''ok''
   \<and> \<not> sublist ''RISK_LEVEL:''
         ''ASSESSMENT: ok\<newline>RECOMMENDATIONS: patch X\<newline>QUESTIONS: null''
   \<and> risk_level (extract_report
         ''ASSESSMENT: ok\<newline>RECOMMENDATIONS: patch X\<newline>QUESTIONS: null'')
       = ''Unknown''
   \<and> assessment (extract_report
         ''ASSESSMENT: ok\<newline>RECOMMENDATIONS: patch X\<newline>QUESTIONS: null'')
       = ''ok\<newline>RECOMMENDATIONS: patch X\<newline>QUESTIONS: null''
   \<and> assessment (extract_report
         ''ASSESSMENT: ok\<newline>RECOMMENDATIONS: patch X\<newline>QUESTIONS: null'')
       \<noteq> ''ok''"
  by code_simp

section \<open>Facts about the fallback chain\<close>


lemma failed_step:
  assumes "strategy w = (r, w')" "failed r"
  shows "run_with_fallback (strategy # rest) failure w = run_with_fallback rest failure w'"
  using assms
  by (cases r) (auto simp: failed_def split: option.splits)

lemma succeeded_step:
  assumes "strategy w = (r, w')" "succeeded r"
  shows "run_with_fallback (strategy # rest) failure w = (Inr r, w')"
  using assms
  by (cases r) (auto simp: succeeded_def split: option.splits)

lemma fallback_skip:
  assumes "run_all pre w = (rs, w1)" "list_all failed rs"
  shows "run_with_fallback (pre @ rest) failure w = run_with_fallback rest failure w1"
  using assms
proof (induction pre arbitrary: w rs)
  case Nil
  then show ?case by simp
next
  case (Cons s pre)
  obtain r w' where s: "s w = (r, w')" by (cases "s w")
  from Cons.prems(1) s obtain rs' where p: "run_all pre w' = (rs', w1)" and e: "rs = r # rs'"
    by (auto split: prod.splits)
  with Cons.prems(2) have f: "failed r" "list_all failed rs'" by auto
  have "run_with_fallback (s # (pre @ rest)) failure w = run_with_fallback (pre @ rest) failure w'"
    using s f(1) by (rule failed_step)
  with Cons.IH [OF p f(2)] e show ?case by simp
qed

lemma run_tool_raises:
  assumes "subprocess_run t cmd timeout w = (Inl (Exn msg), w')" "msg \<noteq> []"
  shows "run_tool t cmd timeout b w = (JObj [(''error'', JStr msg)], w') \<and>
         failed (JObj [(''error'', JStr msg)])"
  using assms by (simp add: run_tool_def failed_def)

section \<open>The fallback chain: the claim\<close>

text \<open>
  C5 (amended). Over strategies whose results are dictionaries that are empty, or hold
  an \<open>error\<close> entry with a truthy value, or are non-empty without an \<open>error\<close> entry:
  the chain returns the result of the first strategy whose result is a non-empty
  dictionary without an \<open>error\<close> entry, in the world that strategy left, whatever the
  later strategies are (they are not invoked); an empty result is passed over like a
  failure. When every result is empty or holds a truthy \<open>error\<close>, the chain returns
  its failure dictionary, which for both tools holds an \<open>error\<close> message and a
  \<open>suggested_fix\<close>. A strategy whose command raises with a non-empty message fails
  in this sense. When the pattern scan fails so, \<open>run_scan\<close> returns a bundle whose
  pattern-scan slot is that failure dictionary and whose other slots hold what their
  probes returned.
\<close>

theorem fallback_chain_first_success:
  "(run_all pre w = (rs, w1) \<and> list_all failed rs \<and> strategy w1 = (r, w2) \<and> succeeded r
      \<longrightarrow> run_with_fallback (pre @ strategy # post) failure w = (Inr r, w2))
   \<and> (run_all strategies w = (rs, w1) \<and> list_all failed rs
      \<longrightarrow> run_with_fallback strategies failure w = (Inr failure, w1))
   \<and> (subprocess_run t cmd timeout w = (Inl (Exn msg), w1) \<and> msg \<noteq> []
      \<longrightarrow> run_tool t cmd timeout with_rc w = (JObj [(''error'', JStr msg)], w1)
          \<and> failed (JObj [(''error'', JStr msg)]))
   \<and> run_semgrep_with_fallback t semgrep_path base_path
       = run_with_fallback (semgrep_strategies t semgrep_path base_path) semgrep_failure
   \<and> run_osv_audit_with_fallback t base_path
       = run_with_fallback (osv_strategies t base_path) osv_failure
   \<and> (\<exists>m f. semgrep_failure = JObj [(''error'', JStr m), (''suggested_fix'', JStr f)])
   \<and> (\<exists>m f. osv_failure = JObj [(''error'', JStr m), (''suggested_fix'', JStr f)])
   \<and> (detect_languages t w = (l, v1) \<and> get_file_structure t v1 = (s, v2)
       \<and> analyze_file_contents t v2 = (f, v3)
       \<and> run_all (semgrep_strategies t semgrep_path base_path) v3 = (gs, v4)
       \<and> list_all failed gs
       \<and> identify_potential_issues t v4 = (p, v5)
      \<longrightarrow> run_scan t semgrep_path base_path w =
            (Inr \<lparr>languages = l, file_structure = s, file_contents = f,
                  semgrep_scan = semgrep_failure, potential_issues = p,
                  detected_frameworks = detect_frameworks t f\<rparr>, v5))"
proof -
  have a: "run_all pre w = (rs, w1) \<and> list_all failed rs \<and> strategy w1 = (r, w2) \<and> succeeded r
      \<longrightarrow> run_with_fallback (pre @ strategy # post) failure w = (Inr r, w2)"
  proof
    assume h: "run_all pre w = (rs, w1) \<and> list_all failed rs \<and> strategy w1 = (r, w2) \<and> succeeded r"
    then have "run_with_fallback (pre @ strategy # post) failure w
        = run_with_fallback (strategy # post) failure w1"
      by (intro fallback_skip) blast+
    also have "\<dots> = (Inr r, w2)"
      using h by (intro succeeded_step) blast+
    finally show "run_with_fallback (pre @ strategy # post) failure w = (Inr r, w2)" .
  qed
  have b: "run_all ss v = (rs', v') \<and> list_all failed rs'
      \<longrightarrow> run_with_fallback ss fl v = (Inr fl, v')" for ss :: "('a \<Rightarrow> json \<times> 'a) list"
      and v rs' v' fl
  proof
    assume h: "run_all ss v = (rs', v') \<and> list_all failed rs'"
    then have "run_with_fallback (ss @ []) fl v = run_with_fallback [] fl v'"
      by (intro fallback_skip) blast+
    then show "run_with_fallback ss fl v = (Inr fl, v')" by simp
  qed
  have c: "subprocess_run t cmd timeout w = (Inl (Exn msg), w1) \<and> msg \<noteq> []
      \<longrightarrow> run_tool t cmd timeout with_rc w = (JObj [(''error'', JStr msg)], w1)
          \<and> failed (JObj [(''error'', JStr msg)])"
  proof
    assume h: "subprocess_run t cmd timeout w = (Inl (Exn msg), w1) \<and> msg \<noteq> []"
    from h have h1: "subprocess_run t cmd timeout w = (Inl (Exn msg), w1)" and h2: "msg \<noteq> []"
      by (rule conjunct1, rule conjunct2)
    show "run_tool t cmd timeout with_rc w = (JObj [(''error'', JStr msg)], w1)
          \<and> failed (JObj [(''error'', JStr msg)])"
      using h1 h2 by (rule run_tool_raises)
  qed
  have d: "run_semgrep_with_fallback t semgrep_path base_path
       = run_with_fallback (semgrep_strategies t semgrep_path base_path) semgrep_failure"
    "run_osv_audit_with_fallback t base_path
       = run_with_fallback (osv_strategies t base_path) osv_failure"
    by (simp_all add: run_semgrep_with_fallback_def run_osv_audit_with_fallback_def)
  have e: "\<exists>m f. semgrep_failure = JObj [(''error'', JStr m), (''suggested_fix'', JStr f)]"
    "\<exists>m f. osv_failure = JObj [(''error'', JStr m), (''suggested_fix'', JStr f)]"
    unfolding semgrep_failure_def osv_failure_def by (rule exI, rule exI, rule refl)+
  have g: "detect_languages t w = (l, v1) \<and> get_file_structure t v1 = (s, v2)
       \<and> analyze_file_contents t v2 = (f, v3)
       \<and> run_all (semgrep_strategies t semgrep_path base_path) v3 = (gs, v4)
       \<and> list_all failed gs
       \<and> identify_potential_issues t v4 = (p, v5)
      \<longrightarrow> run_scan t semgrep_path base_path w =
            (Inr \<lparr>languages = l, file_structure = s, file_contents = f,
                  semgrep_scan = semgrep_failure, potential_issues = p,
                  detected_frameworks = detect_frameworks t f\<rparr>, v5)"
  proof
    assume h: "detect_languages t w = (l, v1) \<and> get_file_structure t v1 = (s, v2)
       \<and> analyze_file_contents t v2 = (f, v3)
       \<and> run_all (semgrep_strategies t semgrep_path base_path) v3 = (gs, v4)
       \<and> list_all failed gs
       \<and> identify_potential_issues t v4 = (p, v5)"
    then have "run_semgrep_with_fallback t semgrep_path base_path v3 = (Inr semgrep_failure, v4)"
      using b [of "semgrep_strategies t semgrep_path base_path" v3 gs v4 semgrep_failure] d(1)
      by simp
    with h show "run_scan t semgrep_path base_path w =
            (Inr \<lparr>languages = l, file_structure = s, file_contents = f,
                  semgrep_scan = semgrep_failure, potential_issues = p,
                  detected_frameworks = detect_frameworks t f\<rparr>, v5)"
      by (simp add: run_scan_def)
  qed
  note b' = b [of strategies w rs w1 failure]
  show ?thesis
    by (intro conjI) (rule a b' c d e g)+
qed

theorem fallback_chain_first_success_witness:
  "run_semgrep_with_fallback no_tools ''semgrep.exe'' ''/tmp/demo'' 0 = (Inr semgrep_failure, 3)
   \<and> run_semgrep_with_fallback second_works ''semgrep.exe'' ''/tmp/demo'' 0
       = (Inr (JObj [(''results'', JArr [])]), 2)
   \<and> run_scan no_tools ''semgrep.exe'' ''/tmp/demo'' 0 =
       (Inr \<lparr>languages = JObj [(''languages'', JObj []), (''total_files'', JNum 0)],
             file_structure = JObj [(''files'', JArr []), (''directories'', JArr [])],
             file_contents = JObj [], semgrep_scan = semgrep_failure,
             potential_issues = JArr [], detected_frameworks = JArr []\<rparr>, 3)"
proof -
  let ?e = "JObj [(''error'', JStr ''FileNotFoundError'')]"
  have all: "run_all (semgrep_strategies no_tools ''semgrep.exe'' ''/tmp/demo'') 0
      = ([?e, ?e, ?e], 3)"
    by code_simp
  have f: "list_all failed [?e, ?e, ?e]" by code_simp
  note th1 = fallback_chain_first_success
    [where strategies = "semgrep_strategies no_tools ''semgrep.exe'' ''/tmp/demo''"
       and w = 0 and rs = "[?e, ?e, ?e]" and ?w1.0 = 3 and failure = semgrep_failure
       and t = no_tools and semgrep_path = "''semgrep.exe''" and base_path = "''/tmp/demo''"
       and l = "JObj [(''languages'', JObj []), (''total_files'', JNum 0)]" and ?v1.0 = 0
       and s = "JObj [(''files'', JArr []), (''directories'', JArr [])]" and ?v2.0 = 0
       and f = "JObj []" and ?v3.0 = 0 and gs = "[?e, ?e, ?e]" and ?v4.0 = 3
       and p = "JArr []" and ?v5.0 = 3]
  have probes: "detect_languages no_tools 0
        = (JObj [(''languages'', JObj []), (''total_files'', JNum 0)], 0)"
    "get_file_structure no_tools 0 = (JObj [(''files'', JArr []), (''directories'', JArr [])], 0)"
    "analyze_file_contents no_tools 0 = (JObj [], 0)"
    "identify_potential_issues no_tools 3 = (JArr [], 3)"
    "detect_frameworks no_tools (JObj []) = JArr []"
    by (simp_all add: no_tools_def)
  have one: "run_semgrep_with_fallback no_tools ''semgrep.exe'' ''/tmp/demo'' 0
      = (Inr semgrep_failure, 3)"
    using th1 all f by simp
  have three: "run_scan no_tools ''semgrep.exe'' ''/tmp/demo'' 0 =
       (Inr \<lparr>languages = JObj [(''languages'', JObj []), (''total_files'', JNum 0)],
             file_structure = JObj [(''files'', JArr []), (''directories'', JArr [])],
             file_contents = JObj [], semgrep_scan = semgrep_failure,
             potential_issues = JArr [], detected_frameworks = JArr []\<rparr>, 3)"
    using th1 all f probes by simp
  let ?u = "JObj [(''error'', JStr ''usage''), (''returncode'', JNum 2)]"
  let ?ok = "JObj [(''results'', JArr [])]"
  have pre: "run_all [run_semgrep_basic second_works ''semgrep.exe'' ''/tmp/demo''] 0 = ([?u], 1)"
    by code_simp
  have fu: "list_all failed [?u]" by code_simp
  have sec: "run_semgrep_security second_works ''semgrep.exe'' ''/tmp/demo'' 1 = (?ok, 2)"
    by code_simp
  have su: "succeeded ?ok" by code_simp
  note th2 = fallback_chain_first_success
    [where pre = "[run_semgrep_basic second_works ''semgrep.exe'' ''/tmp/demo'']"
       and w = 0 and rs = "[?u]" and ?w1.0 = 1
       and strategy = "run_semgrep_security second_works ''semgrep.exe'' ''/tmp/demo''"
       and r = ?ok and ?w2.0 = 2
       and post = "[run_semgrep_auto second_works ''semgrep.exe'' ''/tmp/demo'']"
       and failure = semgrep_failure
       and t = second_works and semgrep_path = "''semgrep.exe''" and base_path = "''/tmp/demo''"]
  have two: "run_semgrep_with_fallback second_works ''semgrep.exe'' ''/tmp/demo'' 0 = (Inr ?ok, 2)"
    using th2 pre fu sec su by (simp add: semgrep_strategies_def)
  from one two three show ?thesis by blast
qed

text \<open>
  C5 as stated fails: an empty dictionary has no \<open>error\<close> key, yet the chain passes
  it over, invokes the next strategy and returns that strategy's result.
\<close>

theorem fallback_chain_empty_result_counterexample:
  "map_of ([] :: (string \<times> json) list) ''error'' = None
   \<and> run_with_fallback
         [\<lambda>w. (JObj [], Suc w), \<lambda>w. (JObj [(''results'', JArr [])], Suc w)]
         semgrep_failure (0::nat)
       = (Inr (JObj [(''results'', JArr [])]), 2)
   \<and> run_with_fallback
         [\<lambda>w. (JObj [], Suc w), \<lambda>w. (JObj [(''results'', JArr [])], Suc w)]
         semgrep_failure (0::nat)
       \<noteq> (Inr (JObj []), 1)"
  by code_simp

end
